theory Spec2Isabelle
  imports Main "HOL-Library.Word"
begin

section \<open>Faults\<close>

text \<open>
  The C code aborts on a failed \<^verbatim>\<open>ASSERT\<close> or \<^verbatim>\<open>VERIFY_MSG\<close> and crashes on a null
  pointer. Every such point is a branch of the model: a function that can reach one
  returns \<open>fault + 'a\<close>, with \<open>Inl\<close> for the abort.
\<close>

datatype fault = AssertFail | VerifyFail | NullDeref

definition bnd :: "fault + 'a \<Rightarrow> ('a \<Rightarrow> fault + 'b) \<Rightarrow> fault + 'b" where
  "bnd r f = (case r of Inl e \<Rightarrow> Inl e | Inr v \<Rightarrow> f v)"

section \<open>Messages (cpdlc\_msg.h, used by both components)\<close>

text \<open>
  Modelled from the spec: the response classes of the catalog. The header that declares
  the enumeration is not among the sources; the code names \<open>Y\<close>, \<open>WU\<close>, \<open>AN\<close> and \<open>NE\<close>.
\<close>

datatype cpdlc_resp =
  CPDLC_RESP_NONE | CPDLC_RESP_Y | CPDLC_RESP_WU | CPDLC_RESP_AN | CPDLC_RESP_NE

text \<open>
  Modelled from the spec: the numeric values of the message-type enumerators (declared in
  a header that is not among the sources). Uplink and downlink types are numbered
  separately, each by the message number in its name, which is why the predicates of
  \<^verbatim>\<open>cpdlc_msglist.c\<close> test the direction next to the type.
\<close>

definition CPDLC_DM0_WILCO :: int where "CPDLC_DM0_WILCO = 0"
definition CPDLC_DM1_UNABLE :: int where "CPDLC_DM1_UNABLE = 1"
definition CPDLC_DM2_STANDBY :: int where "CPDLC_DM2_STANDBY = 2"
definition CPDLC_DM3_ROGER :: int where "CPDLC_DM3_ROGER = 3"
definition CPDLC_DM4_AFFIRM :: int where "CPDLC_DM4_AFFIRM = 4"
definition CPDLC_DM5_NEGATIVE :: int where "CPDLC_DM5_NEGATIVE = 5"
definition CPDLC_DM6_REQ_alt :: int where "CPDLC_DM6_REQ_alt = 6"
definition CPDLC_DM27_REQ_WX_DEVIATION_UP_TO_dir_dist_OF_ROUTE :: int where
  "CPDLC_DM27_REQ_WX_DEVIATION_UP_TO_dir_dist_OF_ROUTE = 27"
definition CPDLC_DM49_WHEN_CAN_WE_EXPCT_spd :: int where
  "CPDLC_DM49_WHEN_CAN_WE_EXPCT_spd = 49"
definition CPDLC_DM54_WHEN_CAN_WE_EXPECT_CRZ_CLB_TO_alt :: int where
  "CPDLC_DM54_WHEN_CAN_WE_EXPECT_CRZ_CLB_TO_alt = 54"
definition CPDLC_DM62_ERROR_errorinfo :: int where "CPDLC_DM62_ERROR_errorinfo = 62"
definition CPDLC_DM70_REQ_HDG_deg :: int where "CPDLC_DM70_REQ_HDG_deg = 70"
definition CPDLC_DM71_REQ_GND_TRK_deg :: int where "CPDLC_DM71_REQ_GND_TRK_deg = 71"
definition CPDLC_UM0_UNABLE :: int where "CPDLC_UM0_UNABLE = 0"
definition CPDLC_UM1_STANDBY :: int where "CPDLC_UM1_STANDBY = 1"
definition CPDLC_UM3_ROGER :: int where "CPDLC_UM3_ROGER = 3"
definition CPDLC_UM4_AFFIRM :: int where "CPDLC_UM4_AFFIRM = 4"
definition CPDLC_UM5_NEGATIVE :: int where "CPDLC_UM5_NEGATIVE = 5"
definition CPDLC_UM159_ERROR_description :: int where "CPDLC_UM159_ERROR_description = 159"
definition CPDLC_UM160_NEXT_DATA_AUTHORITY_id :: int where
  "CPDLC_UM160_NEXT_DATA_AUTHORITY_id = 160"
definition CPDLC_UM161_END_SVC :: int where "CPDLC_UM161_END_SVC = 161"
definition CPDLC_UM168_DISREGARD :: int where "CPDLC_UM168_DISREGARD = 168"

text \<open>
  Modelled from the spec: the sentinel for an absent MIN or MRN, the thread id that asks
  for a new thread, and \<^verbatim>\<open>UINT32_MAX\<close>. \<^verbatim>\<open>unsigned\<close> is 32 bits wide; \<open>+\<close> on
  \<open>32 word\<close> wraps as the C increment does.
\<close>

definition UINT32_MAX :: "32 word" where "UINT32_MAX = 0xFFFFFFFF"
definition CPDLC_INVALID_MSG_SEQ_NR :: "32 word" where "CPDLC_INVALID_MSG_SEQ_NR = 0xFFFFFFFF"
definition CPDLC_NO_MSG_THR_ID :: "32 word" where "CPDLC_NO_MSG_THR_ID = 0xFFFFFFFF"

text \<open>A catalog entry (\<^verbatim>\<open>segs[i].info\<close>), a segment and a message.\<close>

record cpdlc_msg_info =
  is_dl :: bool
  msg_type :: int
  resp :: cpdlc_resp
  timeout :: "32 word"

record cpdlc_msg_seg =
  info :: cpdlc_msg_info
  args :: "string list"

record cpdlc_msg =
  msg_min :: "32 word"
  msg_mrn :: "32 word"
  msg_from :: string
  msg_to :: string
  is_logon :: bool
  segs :: "cpdlc_msg_seg list"

text \<open>
  Modelled from the spec: the accessors and constructors of \<^verbatim>\<open>cpdlc_msg.c\<close>, which is
  not among the sources. A fresh message has no segment and no MIN or MRN; a message's
  direction is that of its first segment (within one message all segments share the
  direction); \<open>cpdlc_msg_add_seg\<close> appends a segment whose catalog entry is looked up by
  direction and type.
\<close>

definition cpdlc_msg_alloc :: cpdlc_msg where
  "cpdlc_msg_alloc =
     \<lparr>msg_min = CPDLC_INVALID_MSG_SEQ_NR, msg_mrn = CPDLC_INVALID_MSG_SEQ_NR,
      msg_from = [], msg_to = [], is_logon = False, segs = []\<rparr>"

definition cpdlc_msg_get_min :: "cpdlc_msg \<Rightarrow> 32 word" where
  "cpdlc_msg_get_min m = msg_min m"

definition cpdlc_msg_get_mrn :: "cpdlc_msg \<Rightarrow> 32 word" where
  "cpdlc_msg_get_mrn m = msg_mrn m"

definition cpdlc_msg_set_min :: "cpdlc_msg \<Rightarrow> 32 word \<Rightarrow> cpdlc_msg" where
  "cpdlc_msg_set_min m n = m\<lparr>msg_min := n\<rparr>"

definition cpdlc_msg_set_mrn :: "cpdlc_msg \<Rightarrow> 32 word \<Rightarrow> cpdlc_msg" where
  "cpdlc_msg_set_mrn m n = m\<lparr>msg_mrn := n\<rparr>"

definition cpdlc_msg_get_dl :: "cpdlc_msg \<Rightarrow> bool" where
  "cpdlc_msg_get_dl m = (case segs m of [] \<Rightarrow> False | s # _ \<Rightarrow> is_dl (info s))"

definition cpdlc_msg_get_num_segs :: "cpdlc_msg \<Rightarrow> nat" where
  "cpdlc_msg_get_num_segs m = length (segs m)"

definition cpdlc_msg_add_seg ::
  "(bool \<Rightarrow> int \<Rightarrow> cpdlc_resp \<times> 32 word) \<Rightarrow> cpdlc_msg \<Rightarrow> bool \<Rightarrow> int \<Rightarrow> cpdlc_msg" where
  "cpdlc_msg_add_seg cat m dl ty =
     m\<lparr>segs := segs m @
        [\<lparr>info = \<lparr>is_dl = dl, msg_type = ty, resp = fst (cat dl ty),
                   timeout = snd (cat dl ty)\<rparr>,
          args = []\<rparr>]\<rparr>"

definition set_arg :: "string list \<Rightarrow> nat \<Rightarrow> string \<Rightarrow> string list" where
  "set_arg xs n v =
     (if n < length xs then xs[n := v] else xs @ replicate (n - length xs) [] @ [v])"

definition cpdlc_msg_seg_set_arg :: "cpdlc_msg \<Rightarrow> nat \<Rightarrow> nat \<Rightarrow> string \<Rightarrow> cpdlc_msg" where
  "cpdlc_msg_seg_set_arg m seg_nr arg_nr v =
     (if seg_nr < length (segs m)
      then m\<lparr>segs := (segs m)[seg_nr :=
             (segs m ! seg_nr)\<lparr>args := set_arg (args (segs m ! seg_nr)) arg_nr v\<rparr>]\<rparr>
      else m)"

section \<open>The thread engine (src/src/cpdlc\_msglist.c)\<close>

subsection \<open>Data\<close>

text \<open>
  Modelled from the spec: the thread statuses, in the order the spec lists them, and the
  opaque send token. A thread made by \<^verbatim>\<open>safe_calloc\<close> has the status whose value is 0,
  taken to be the first enumerator.
\<close>

datatype cpdlc_msg_thr_status =
  CPDLC_MSG_THR_OPEN | CPDLC_MSG_THR_PENDING | CPDLC_MSG_THR_STANDBY
  | CPDLC_MSG_THR_ACCEPTED | CPDLC_MSG_THR_REJECTED | CPDLC_MSG_THR_TIMEDOUT
  | CPDLC_MSG_THR_DISREGARD | CPDLC_MSG_THR_ERROR | CPDLC_MSG_THR_CLOSED
  | CPDLC_MSG_THR_FAILED | CPDLC_MSG_THR_CONN_ENDED

definition calloc_status :: cpdlc_msg_thr_status where
  "calloc_status = CPDLC_MSG_THR_OPEN"

datatype cpdlc_msg_token_t = CPDLC_INVALID_MSG_TOKEN | Token nat

datatype cpdlc_msg_status =
  CPDLC_MSG_STATUS_SENDING | CPDLC_MSG_STATUS_SENT | CPDLC_MSG_STATUS_SEND_FAILED
  | CPDLC_MSG_STATUS_INVALID_TOKEN

datatype cpdlc_logon_status = CPDLC_LOGON_NONE | CPDLC_LOGON_COMPLETE

record msg_bucket =
  msg :: cpdlc_msg
  tok :: cpdlc_msg_token_t
  sent :: bool
  hours :: nat
  mins :: nat
  time :: int

record msg_thr =
  thr_id :: "32 word"
  status :: cpdlc_msg_thr_status
  buckets :: "msg_bucket list"
  dirty :: bool

text \<open>
  The engine: \<open>thr\<close> is the thread list, head first; \<open>msglist_min\<close> is the field
  \<^verbatim>\<open>min\<close>; \<open>update_cb\<close> says whether a callback is registered. A pointer to a thread is
  its index in \<open>thr\<close>.
\<close>

record cpdlc_msglist =
  thr :: "msg_thr list"
  msglist_min :: "32 word"
  next_thr_id :: "32 word"
  update_cb :: bool

text \<open>
  What the engine reads from outside during one operation: the client transport
  (\<^verbatim>\<open>cpdlc_client_get_msg_status\<close>, \<^verbatim>\<open>cpdlc_client_get_logon_status\<close>,
  \<^verbatim>\<open>cpdlc_client_send_msg\<close>), the clock (\<open>now\<close> is what \<^verbatim>\<open>time(NULL)\<close> returns in
  \<open>thr_status_upd\<close>, \<open>stamp\<close> what it returns when a bucket is stamped), the display time
  function and the catalog.
\<close>

record extern =
  cl_msg_status :: "cpdlc_msg_token_t \<Rightarrow> cpdlc_msg_status"
  cl_logon_status :: cpdlc_logon_status
  cl_send_msg :: "cpdlc_msg \<Rightarrow> cpdlc_msg_token_t"
  now :: int
  stamp :: int
  get_hours :: nat
  get_mins :: nat
  catalog :: "bool \<Rightarrow> int \<Rightarrow> cpdlc_resp \<times> 32 word"

subsection \<open>Predicates on messages\<close>

text \<open>\<^verbatim>\<open>ASSERT(msg->segs[0].info != NULL)\<close>: the message has a first segment.\<close>

definition seg0 :: "cpdlc_msg \<Rightarrow> fault + cpdlc_msg_info" where
  "seg0 m = (case segs m of [] \<Rightarrow> Inl AssertFail | s # _ \<Rightarrow> Inr (info s))"

definition msg_is_dl_req :: "cpdlc_msg \<Rightarrow> fault + bool" where
  "msg_is_dl_req m = bnd (seg0 m) (\<lambda>i. Inr
     ((msg_type i \<ge> CPDLC_DM6_REQ_alt \<and>
       msg_type i \<le> CPDLC_DM27_REQ_WX_DEVIATION_UP_TO_dir_dist_OF_ROUTE) \<or>
      (msg_type i \<ge> CPDLC_DM49_WHEN_CAN_WE_EXPCT_spd \<and>
       msg_type i \<le> CPDLC_DM54_WHEN_CAN_WE_EXPECT_CRZ_CLB_TO_alt) \<or>
      msg_type i = CPDLC_DM70_REQ_HDG_deg \<or>
      msg_type i = CPDLC_DM71_REQ_GND_TRK_deg))"

definition msg_dl_req_resp :: "cpdlc_msg \<Rightarrow> fault + bool" where
  "msg_dl_req_resp m = bnd (seg0 m) (\<lambda>i.
     if is_dl i then Inr (resp i = CPDLC_RESP_Y) else Inl AssertFail)"

definition msg_is_ul_req :: "cpdlc_msg \<Rightarrow> fault + bool" where
  "msg_is_ul_req m = bnd (seg0 m) (\<lambda>i. Inr
     (resp i = CPDLC_RESP_WU \<or> resp i = CPDLC_RESP_AN \<or> resp i = CPDLC_RESP_NE))"

definition msg_is_stby :: "cpdlc_msg \<Rightarrow> fault + bool" where
  "msg_is_stby m = bnd (seg0 m) (\<lambda>i. Inr
     ((is_dl i \<and> msg_type i = CPDLC_DM2_STANDBY) \<or>
      (\<not> is_dl i \<and> msg_type i = CPDLC_UM1_STANDBY)))"

definition msg_is_accept :: "cpdlc_msg \<Rightarrow> fault + bool" where
  "msg_is_accept m = bnd (seg0 m) (\<lambda>i. Inr
     ((is_dl i \<and> (msg_type i = CPDLC_DM0_WILCO \<or> msg_type i = CPDLC_DM4_AFFIRM)) \<or>
      (\<not> is_dl i \<and> msg_type i = CPDLC_UM4_AFFIRM)))"

definition msg_is_reject :: "cpdlc_msg \<Rightarrow> fault + bool" where
  "msg_is_reject m = bnd (seg0 m) (\<lambda>i. Inr
     ((is_dl i \<and>
       (msg_type i = CPDLC_DM1_UNABLE \<or> msg_type i = CPDLC_DM5_NEGATIVE \<or>
        msg_type i = CPDLC_DM62_ERROR_errorinfo)) \<or>
      (\<not> is_dl i \<and>
       (msg_type i = CPDLC_UM0_UNABLE \<or> msg_type i = CPDLC_UM5_NEGATIVE \<or>
        msg_type i = CPDLC_UM159_ERROR_description))))"

definition is_error_msg :: "cpdlc_msg \<Rightarrow> fault + bool" where
  "is_error_msg m = bnd (seg0 m) (\<lambda>i. Inr
     ((is_dl i \<and> msg_type i = CPDLC_DM62_ERROR_errorinfo) \<or>
      (\<not> is_dl i \<and> msg_type i = CPDLC_UM159_ERROR_description)))"

definition msg_is_rgr :: "cpdlc_msg \<Rightarrow> fault + bool" where
  "msg_is_rgr m = bnd (seg0 m) (\<lambda>i. Inr
     ((is_dl i \<and> msg_type i = CPDLC_DM3_ROGER) \<or>
      (\<not> is_dl i \<and> msg_type i = CPDLC_UM3_ROGER)))"

definition msg_is_link_mgmt :: "cpdlc_msg \<Rightarrow> fault + bool" where
  "msg_is_link_mgmt m = bnd (seg0 m) (\<lambda>i. Inr
     (\<not> is_dl i \<and>
      (msg_type i = CPDLC_UM161_END_SVC \<or>
       msg_type i = CPDLC_UM160_NEXT_DATA_AUTHORITY_id)))"

definition is_disregard_msg :: "cpdlc_msg \<Rightarrow> fault + bool" where
  "is_disregard_msg m = bnd (seg0 m) (\<lambda>i. Inr
     (\<not> is_dl i \<and> msg_type i = CPDLC_UM168_DISREGARD))"

definition thr_status_is_final :: "cpdlc_msg_thr_status \<Rightarrow> bool" where
  "thr_status_is_final st =
     (st = CPDLC_MSG_THR_CLOSED \<or> st = CPDLC_MSG_THR_ACCEPTED \<or>
      st = CPDLC_MSG_THR_REJECTED \<or> st = CPDLC_MSG_THR_TIMEDOUT \<or>
      st = CPDLC_MSG_THR_DISREGARD \<or> st = CPDLC_MSG_THR_FAILED \<or>
      st = CPDLC_MSG_THR_ERROR \<or> st = CPDLC_MSG_THR_CONN_ENDED)"

subsection \<open>The thread's timeout\<close>

text \<open>The inner loop over the segments of one message, and the outer one over the buckets.\<close>

fun timeout_segs :: "cpdlc_msg_seg list \<Rightarrow> 32 word \<Rightarrow> 32 word" where
  "timeout_segs [] t = t"
| "timeout_segs (s # ss) t =
     timeout_segs ss
       (if timeout (info s) \<noteq> 0 \<and> timeout (info s) < t then timeout (info s) else t)"

fun timeout_buckets :: "msg_bucket list \<Rightarrow> 32 word \<Rightarrow> 32 word" where
  "timeout_buckets [] t = t"
| "timeout_buckets (b # bs) t = timeout_buckets bs (timeout_segs (segs (msg b)) t)"

definition thr_get_timeout :: "msg_thr \<Rightarrow> 32 word" where
  "thr_get_timeout t =
     (let x = timeout_buckets (buckets t) UINT32_MAX in if x < UINT32_MAX then x else 0)"

subsection \<open>Finding and creating threads\<close>

fun find_idx :: "32 word \<Rightarrow> msg_thr list \<Rightarrow> nat option" where
  "find_idx tid [] = None"
| "find_idx tid (t # ts) =
     (if thr_id t = tid then Some 0
      else (case find_idx tid ts of None \<Rightarrow> None | Some i \<Rightarrow> Some (Suc i)))"

text \<open>
  \<open>find_msg_thr\<close> returns the engine and the index of the thread: the first one with the
  id, or a new empty thread put at the head of the list when the id is
  \<open>CPDLC_NO_MSG_THR_ID\<close>.
\<close>

definition find_msg_thr :: "cpdlc_msglist \<Rightarrow> 32 word \<Rightarrow> fault + (cpdlc_msglist \<times> nat)" where
  "find_msg_thr ml tid =
     (if tid \<noteq> CPDLC_NO_MSG_THR_ID then
        (case find_idx tid (thr ml) of
           Some i \<Rightarrow> Inr (ml, i)
         | None \<Rightarrow> Inl VerifyFail)
      else
        Inr (ml\<lparr>thr := \<lparr>thr_id = next_thr_id ml, status = calloc_status, buckets = [],
                         dirty = False\<rparr> # thr ml,
                 next_thr_id := next_thr_id ml + 1\<rparr>, 0))"

subsection \<open>Sending\<close>

text \<open>
  The loop that walks the buckets from the tail and stops at the first one whose message
  has the other direction is \<open>find\<close> on the reversed list.
\<close>

definition assign_mrn :: "msg_bucket list \<Rightarrow> cpdlc_msg \<Rightarrow> cpdlc_msg" where
  "assign_mrn bs m =
     (case find (\<lambda>b. cpdlc_msg_get_dl (msg b) \<noteq> cpdlc_msg_get_dl m) (rev bs) of
        Some b \<Rightarrow> cpdlc_msg_set_mrn m (cpdlc_msg_get_min (msg b))
      | None \<Rightarrow> m)"

definition sent_bucket :: "extern \<Rightarrow> 32 word \<Rightarrow> msg_bucket list \<Rightarrow> cpdlc_msg \<Rightarrow> msg_bucket" where
  "sent_bucket ex mn bs m =
     (let m1 = assign_mrn bs m;
          m2 = cpdlc_msg_set_min m1 mn
      in \<lparr>msg = m2, tok = cl_send_msg ex m2, sent = True,
           hours = get_hours ex, mins = get_mins ex, time = stamp ex\<rparr>)"

definition msglist_send_impl ::
  "extern \<Rightarrow> cpdlc_msglist \<Rightarrow> cpdlc_msg \<Rightarrow> 32 word \<Rightarrow> fault + (cpdlc_msglist \<times> nat)" where
  "msglist_send_impl ex ml m tid =
     bnd (find_msg_thr ml tid) (\<lambda>(ml1, i).
       let t = thr ml1 ! i in
       bnd (if tid = CPDLC_NO_MSG_THR_ID then Inr (t\<lparr>status := CPDLC_MSG_THR_OPEN\<rparr>)
            else if thr_status_is_final (status t) then Inl AssertFail
            else Inr t) (\<lambda>t1.
         let b = sent_bucket ex (msglist_min ml1) (buckets t1) m
         in Inr (ml1\<lparr>thr := (thr ml1)[i := t1\<lparr>buckets := buckets t1 @ [b]\<rparr>],
                      msglist_min := msglist_min ml1 + 1\<rparr>, i)))"

subsection \<open>Status recomputation\<close>

definition set_status :: "cpdlc_msglist \<Rightarrow> nat \<Rightarrow> cpdlc_msg_thr_status \<Rightarrow> cpdlc_msglist" where
  "set_status ml i s = ml\<lparr>thr := (thr ml)[i := (thr ml ! i)\<lparr>status := s\<rparr>]\<rparr>"

text \<open>The message the timeout branch builds before it calls the send path.\<close>

definition timedout_msg :: "extern \<Rightarrow> msg_bucket \<Rightarrow> cpdlc_msg" where
  "timedout_msg ex lst =
     cpdlc_msg_seg_set_arg
       (cpdlc_msg_add_seg (catalog ex)
          (cpdlc_msg_set_mrn cpdlc_msg_alloc (cpdlc_msg_get_min (msg lst)))
          True CPDLC_DM62_ERROR_errorinfo)
       0 0 ''TIMEDOUT''"

text \<open>
  The chain of \<^verbatim>\<open>else if\<close> of \<open>thr_status_upd\<close> is split in two: \<open>thr_status_branch\<close>
  evaluates the conditions in the source's order, each one only when the ones before it
  failed, and names the branch taken; \<open>thr_status_upd\<close> runs the body of that branch.
  \<^verbatim>\<open>first == last\<close> compares pointers: it holds when the thread has one bucket, and also
  when it has none, where \<^verbatim>\<open>first->sent\<close> reads through a null pointer.
\<close>

datatype upd_branch =
  Set_status cpdlc_msg_thr_status | Send_timedout | Conn_ended | No_change

definition thr_status_branch :: "extern \<Rightarrow> msg_thr \<Rightarrow> fault + upd_branch" where
  "thr_status_branch ex t =
     (case buckets t of
        [] \<Rightarrow> Inl NullDeref
      | first # _ \<Rightarrow>
        let lst = last (buckets t);
            tmo = thr_get_timeout t
        in
        bnd (if length (buckets t) = 1 \<and> sent first
             then bnd (msg_dl_req_resp (msg first)) (\<lambda>r. Inr (\<not> r)) else Inr False) (\<lambda>c1.
        if c1 then Inr (Set_status CPDLC_MSG_THR_CLOSED) else
        bnd (if sent lst then msg_is_dl_req (msg lst) else Inr False) (\<lambda>c2.
        if c2 then
          Inr (Set_status
            (case cl_msg_status ex (tok lst) of
               CPDLC_MSG_STATUS_SENDING \<Rightarrow> CPDLC_MSG_THR_PENDING
             | CPDLC_MSG_STATUS_SEND_FAILED \<Rightarrow> CPDLC_MSG_THR_FAILED
             | _ \<Rightarrow> CPDLC_MSG_THR_OPEN))
        else
        bnd (msg_is_stby (msg lst)) (\<lambda>c3.
        if c3 then Inr (Set_status CPDLC_MSG_THR_STANDBY) else
        bnd (msg_is_accept (msg lst)) (\<lambda>c4.
        if c4 then Inr (Set_status CPDLC_MSG_THR_ACCEPTED) else
        bnd (msg_is_reject (msg lst)) (\<lambda>c5.
        if c5 then Inr (Set_status CPDLC_MSG_THR_REJECTED) else
        bnd (bnd (msg_is_rgr (msg lst))
               (\<lambda>r. if r then Inr True else msg_is_link_mgmt (msg lst))) (\<lambda>c6.
        if c6 then Inr (Set_status CPDLC_MSG_THR_CLOSED) else
        bnd (msg_is_ul_req (msg lst)) (\<lambda>c7.
        if c7 \<and> status t \<noteq> CPDLC_MSG_THR_STANDBY \<and> tmo \<noteq> 0 \<and>
           now ex - time lst > uint tmo
        then Inr Send_timedout else
        bnd (is_disregard_msg (msg lst)) (\<lambda>c8.
        if c8 then Inr (Set_status CPDLC_MSG_THR_DISREGARD) else
        bnd (is_error_msg (msg lst)) (\<lambda>c9.
        if c9 then Inr (Set_status CPDLC_MSG_THR_ERROR) else
        if cl_logon_status ex \<noteq> CPDLC_LOGON_COMPLETE then Inr Conn_ended
        else Inr No_change))))))))))"

text \<open>
  \<open>thr_status_upd ex ml i\<close> recomputes the status of the thread at index \<open>i\<close>. In the
  timeout branch the send path looks the thread up by its id and may put a new thread
  at the head of the list; the thread at hand then sits further down by as many places
  as the list grew, and it is that thread whose status is set.
\<close>

definition thr_status_upd :: "extern \<Rightarrow> cpdlc_msglist \<Rightarrow> nat \<Rightarrow> fault + cpdlc_msglist" where
  "thr_status_upd ex ml i =
     (if i \<ge> length (thr ml) then Inl NullDeref
      else let t = thr ml ! i in
      if thr_status_is_final (status t) then Inr ml
      else
        bnd (thr_status_branch ex t) (\<lambda>a.
          case a of
            Set_status s \<Rightarrow> Inr (set_status ml i s)
          | Send_timedout \<Rightarrow>
              bnd (msglist_send_impl ex ml (timedout_msg ex (last (buckets t))) (thr_id t))
                (\<lambda>(ml1, j).
                  Inr (set_status ml1 (i + (length (thr ml1) - length (thr ml)))
                         CPDLC_MSG_THR_TIMEDOUT))
          | Conn_ended \<Rightarrow>
              Inr (ml\<lparr>thr := (thr ml)[i := t\<lparr>dirty := False,
                                               status := CPDLC_MSG_THR_CONN_ENDED\<rparr>]\<rparr>)
          | No_change \<Rightarrow> Inr ml))"

subsection \<open>Correlation of a received message\<close>

definition msg_matches_bucket :: "cpdlc_msg \<Rightarrow> msg_bucket \<Rightarrow> fault + bool" where
  "msg_matches_bucket m b =
     bnd (seg0 m) (\<lambda>_.
       let mn = cpdlc_msg_get_min (msg b); mr = cpdlc_msg_get_mrn m in
       bnd (is_disregard_msg m) (\<lambda>d.
         if d then Inr (\<not> sent b \<and> mn = mr) else Inr (sent b \<and> mn = mr)))"

text \<open>The inner loop, over the buckets in the order given (the caller gives them tail first).\<close>

fun bucket_scan :: "cpdlc_msg \<Rightarrow> msg_bucket list \<Rightarrow> fault + bool" where
  "bucket_scan m [] = Inr False"
| "bucket_scan m (b # bs) =
     bnd (msg_matches_bucket m b) (\<lambda>r. if r then Inr True else bucket_scan m bs)"

text \<open>
  The outer loop, over the threads in the order given (tail first): a thread of the
  reversed list with \<open>length ts\<close> threads after it has index \<open>length ts\<close> in the list.
\<close>

fun thr_scan :: "cpdlc_msg \<Rightarrow> msg_thr list \<Rightarrow> fault + nat option" where
  "thr_scan m [] = Inr None"
| "thr_scan m (t # ts) =
     (if status t = CPDLC_MSG_THR_CLOSED then thr_scan m ts
      else bnd (bucket_scan m (rev (buckets t)))
             (\<lambda>r. if r then Inr (Some (length ts)) else thr_scan m ts))"

definition msg_thr_find_by_mrn :: "cpdlc_msglist \<Rightarrow> cpdlc_msg \<Rightarrow> fault + nat option" where
  "msg_thr_find_by_mrn ml m =
     (if cpdlc_msg_get_mrn m = CPDLC_INVALID_MSG_SEQ_NR then Inr None
      else thr_scan m (rev (thr ml)))"

text \<open>
  One turn of the loop of \<open>msg_recv_cb\<close>, for one message taken from the client. It
  returns the engine and the id the turn reports to the update callback.
\<close>

definition recv_one ::
  "extern \<Rightarrow> cpdlc_msglist \<Rightarrow> cpdlc_msg \<Rightarrow> fault + (cpdlc_msglist \<times> 32 word)" where
  "recv_one ex ml m =
     bnd (msg_thr_find_by_mrn ml m) (\<lambda>r.
     bnd (case r of Some i \<Rightarrow> Inr (ml, i)
          | None \<Rightarrow> find_msg_thr ml CPDLC_NO_MSG_THR_ID) (\<lambda>(ml1, i).
       let t = thr ml1 ! i;
           b = \<lparr>msg = m, tok = CPDLC_INVALID_MSG_TOKEN, sent = False,
                hours = get_hours ex, mins = get_mins ex, time = stamp ex\<rparr>;
           ml2 = ml1\<lparr>thr := (thr ml1)[i := t\<lparr>dirty := True, buckets := buckets t @ [b]\<rparr>]\<rparr>
       in
       bnd (thr_status_upd ex ml2 i) (\<lambda>ml3.
         Inr (ml3, thr_id (thr ml3 ! (i + (length (thr ml3) - length (thr ml2))))))))"

fun recv_loop ::
  "extern \<Rightarrow> cpdlc_msglist \<Rightarrow> cpdlc_msg list \<Rightarrow> 32 word list
     \<Rightarrow> fault + (cpdlc_msglist \<times> 32 word list)" where
  "recv_loop ex ml [] upd = Inr (ml, upd)"
| "recv_loop ex ml (m # ms) upd =
     bnd (recv_one ex ml m) (\<lambda>(ml1, tid).
       recv_loop ex ml1 ms (if update_cb ml then upd @ [tid] else upd))"

text \<open>
  \<open>msg_recv_cb ex ml msgs\<close>: \<open>msgs\<close> are the messages \<^verbatim>\<open>cpdlc_client_recv_msg\<close> hands
  out until it returns \<^verbatim>\<open>NULL\<close>. The second component is the list given to the update
  callback.
\<close>

definition msg_recv_cb ::
  "extern \<Rightarrow> cpdlc_msglist \<Rightarrow> cpdlc_msg list \<Rightarrow> fault + (cpdlc_msglist \<times> 32 word list)" where
  "msg_recv_cb ex ml msgs = recv_loop ex ml msgs []"

subsection \<open>The public operations\<close>

definition cpdlc_msglist_alloc :: cpdlc_msglist where
  "cpdlc_msglist_alloc = \<lparr>thr = [], msglist_min = 0, next_thr_id = 0, update_cb = False\<rparr>"

text \<open>
  \<open>upd_loop ex ml k\<close> runs \<open>thr_status_upd\<close> on the last \<open>k\<close> threads of the list, from
  the head side on. The loop of \<open>cpdlc_msglist_update\<close> follows \<^verbatim>\<open>list_next\<close>, so a
  thread put at the head meanwhile is not visited.
\<close>

fun upd_loop :: "extern \<Rightarrow> cpdlc_msglist \<Rightarrow> nat \<Rightarrow> fault + cpdlc_msglist" where
  "upd_loop ex ml 0 = Inr ml"
| "upd_loop ex ml (Suc k) =
     bnd (thr_status_upd ex ml (length (thr ml) - Suc k)) (\<lambda>ml1. upd_loop ex ml1 k)"

definition cpdlc_msglist_update :: "extern \<Rightarrow> cpdlc_msglist \<Rightarrow> fault + cpdlc_msglist" where
  "cpdlc_msglist_update ex ml = upd_loop ex ml (length (thr ml))"

definition cpdlc_msglist_send ::
  "extern \<Rightarrow> cpdlc_msglist \<Rightarrow> cpdlc_msg \<Rightarrow> 32 word \<Rightarrow> fault + (cpdlc_msglist \<times> 32 word)" where
  "cpdlc_msglist_send ex ml m tid =
     bnd (msglist_send_impl ex ml m tid) (\<lambda>(ml1, i).
       let tid1 = thr_id (thr ml1 ! i) in
       bnd (thr_status_upd ex ml1 i) (\<lambda>ml2. Inr (ml2, tid1)))"

text \<open>
  \<open>cpdlc_msglist_get_thr_ids\<close>: \<open>have_buf\<close> says whether \<^verbatim>\<open>thr_ids\<close> is not \<^verbatim>\<open>NULL\<close>, \<open>cap\<close>
  is \<^verbatim>\<open>*cap\<close> on entry. The result is the ids written to the buffer and \<^verbatim>\<open>*cap\<close> on
  return.
\<close>

fun get_thr_ids_loop ::
  "bool \<Rightarrow> bool \<Rightarrow> nat \<Rightarrow> msg_thr list \<Rightarrow> nat \<Rightarrow> 32 word list
     \<Rightarrow> fault + (nat \<times> 32 word list)" where
  "get_thr_ids_loop ign have_buf cap [] thr_i out = Inr (thr_i, out)"
| "get_thr_ids_loop ign have_buf cap (t # ts) thr_i out =
     (if ign \<and> \<not> dirty t \<and> thr_status_is_final (status t)
      then get_thr_ids_loop ign have_buf cap ts thr_i out
      else if thr_i < cap then
        (if \<not> have_buf then Inl AssertFail
         else get_thr_ids_loop ign have_buf cap ts (Suc thr_i) (out @ [thr_id t]))
      else get_thr_ids_loop ign have_buf cap ts (Suc thr_i) out)"

definition cpdlc_msglist_get_thr_ids ::
  "cpdlc_msglist \<Rightarrow> bool \<Rightarrow> bool \<Rightarrow> nat \<Rightarrow> fault + (32 word list \<times> nat)" where
  "cpdlc_msglist_get_thr_ids ml ignore_closed have_buf cap =
     bnd (get_thr_ids_loop ignore_closed have_buf cap (thr ml) 0 []) (\<lambda>(thr_i, out).
       Inr (out, if \<not> have_buf then thr_i else min cap thr_i))"

definition cpdlc_msglist_get_thr_status ::
  "cpdlc_msglist \<Rightarrow> 32 word \<Rightarrow> fault + (cpdlc_msg_thr_status \<times> bool)" where
  "cpdlc_msglist_get_thr_status ml tid =
     (if tid = CPDLC_NO_MSG_THR_ID then Inl AssertFail
      else bnd (find_msg_thr ml tid) (\<lambda>(ml1, i).
        Inr (status (thr ml1 ! i), dirty (thr ml1 ! i))))"

definition cpdlc_msglist_thr_mark_seen :: "cpdlc_msglist \<Rightarrow> 32 word \<Rightarrow> fault + cpdlc_msglist" where
  "cpdlc_msglist_thr_mark_seen ml tid =
     (if tid = CPDLC_NO_MSG_THR_ID then Inl AssertFail
      else bnd (find_msg_thr ml tid) (\<lambda>(ml1, i).
        Inr (ml1\<lparr>thr := (thr ml1)[i := (thr ml1 ! i)\<lparr>dirty := False\<rparr>]\<rparr>)))"

definition cpdlc_msglist_get_thr_msg_count :: "cpdlc_msglist \<Rightarrow> 32 word \<Rightarrow> fault + nat" where
  "cpdlc_msglist_get_thr_msg_count ml tid =
     (if tid = CPDLC_NO_MSG_THR_ID then Inl AssertFail
      else bnd (find_msg_thr ml tid) (\<lambda>(ml1, i). Inr (length (buckets (thr ml1 ! i)))))"

definition cpdlc_msglist_remove_thr :: "cpdlc_msglist \<Rightarrow> 32 word \<Rightarrow> fault + cpdlc_msglist" where
  "cpdlc_msglist_remove_thr ml tid =
     (if tid = CPDLC_NO_MSG_THR_ID then Inl AssertFail
      else bnd (find_msg_thr ml tid) (\<lambda>(ml1, i).
        Inr (ml1\<lparr>thr := take i (thr ml1) @ drop (Suc i) (thr ml1)\<rparr>)))"

definition cpdlc_msglist_thr_is_done :: "cpdlc_msglist \<Rightarrow> 32 word \<Rightarrow> fault + bool" where
  "cpdlc_msglist_thr_is_done ml tid =
     (if tid = CPDLC_NO_MSG_THR_ID then Inl AssertFail
      else bnd (find_msg_thr ml tid) (\<lambda>(ml1, i).
        Inr (thr_status_is_final (status (thr ml1 ! i)))))"

definition cpdlc_msglist_thr_close :: "cpdlc_msglist \<Rightarrow> 32 word \<Rightarrow> fault + cpdlc_msglist" where
  "cpdlc_msglist_thr_close ml tid =
     (if tid = CPDLC_NO_MSG_THR_ID then Inl AssertFail
      else bnd (find_msg_thr ml tid) (\<lambda>(ml1, i).
        if \<not> thr_status_is_final (status (thr ml1 ! i))
        then Inr (set_status ml1 i CPDLC_MSG_THR_CLOSED)
        else Inr ml1))"

definition cpdlc_msglist_set_update_cb :: "cpdlc_msglist \<Rightarrow> bool \<Rightarrow> cpdlc_msglist" where
  "cpdlc_msglist_set_update_cb ml cb = ml\<lparr>update_cb := cb\<rparr>"

subsection \<open>Runs of the engine\<close>

text \<open>
  A call of one of the public operations that change the engine, with what the outside
  world answers during the call. \<open>engine_run\<close> applies a list of calls, oldest first, and
  stops at the first abort.
\<close>

datatype engine_call =
  Send extern cpdlc_msg "32 word"
  | Recv extern "cpdlc_msg list"
  | Update extern
  | Thr_close "32 word"
  | Remove_thr "32 word"
  | Mark_seen "32 word"
  | Set_update_cb bool

fun engine_step :: "cpdlc_msglist \<Rightarrow> engine_call \<Rightarrow> fault + cpdlc_msglist" where
  "engine_step ml (Send ex m tid) = bnd (cpdlc_msglist_send ex ml m tid) (\<lambda>(ml1, _). Inr ml1)"
| "engine_step ml (Recv ex msgs) = bnd (msg_recv_cb ex ml msgs) (\<lambda>(ml1, _). Inr ml1)"
| "engine_step ml (Update ex) = cpdlc_msglist_update ex ml"
| "engine_step ml (Thr_close tid) = cpdlc_msglist_thr_close ml tid"
| "engine_step ml (Remove_thr tid) = cpdlc_msglist_remove_thr ml tid"
| "engine_step ml (Mark_seen tid) = cpdlc_msglist_thr_mark_seen ml tid"
| "engine_step ml (Set_update_cb cb) = Inr (cpdlc_msglist_set_update_cb ml cb)"

fun engine_run :: "cpdlc_msglist \<Rightarrow> engine_call list \<Rightarrow> fault + cpdlc_msglist" where
  "engine_run ml [] = Inr ml"
| "engine_run ml (c # cs) = bnd (engine_step ml c) (\<lambda>ml1. engine_run ml1 cs)"

subsection \<open>Relations between two states of the thread list\<close>

text \<open>
  New threads are put at the head, so a thread keeps its distance from the tail. The
  thread list \<open>ts'\<close> extends \<open>ts\<close> under \<open>R\<close> when it is at least as long and each
  thread of \<open>ts\<close> is related by \<open>R\<close> to the thread at the same distance from the tail.
\<close>

definition suffix_rel :: "('a \<Rightarrow> 'a \<Rightarrow> bool) \<Rightarrow> 'a list \<Rightarrow> 'a list \<Rightarrow> bool" where
  "suffix_rel R ts ts' =
     (length ts \<le> length ts' \<and> list_all2 R ts (drop (length ts' - length ts) ts'))"

definition status_kept :: "msg_thr \<Rightarrow> msg_thr \<Rightarrow> bool" where
  "status_kept t t' = (thr_status_is_final (status t) \<longrightarrow> status t' = status t)"

definition final_kept :: "msg_thr list \<Rightarrow> msg_thr list \<Rightarrow> bool" where
  "final_kept ts ts' = suffix_rel status_kept ts ts'"

definition closed_same :: "msg_thr \<Rightarrow> msg_thr \<Rightarrow> bool" where
  "closed_same t t' = (status t = CPDLC_MSG_THR_CLOSED \<longrightarrow> t' = t)"

definition closed_kept :: "msg_thr list \<Rightarrow> msg_thr list \<Rightarrow> bool" where
  "closed_kept ts ts' = suffix_rel closed_same ts ts'"

definition thr_nonempty :: "cpdlc_msglist \<Rightarrow> bool" where
  "thr_nonempty ml = list_all (\<lambda>t. buckets t \<noteq> []) (thr ml)"

fun is_remove :: "engine_call \<Rightarrow> bool" where
  "is_remove (Remove_thr _) = True"
| "is_remove _ = False"

text \<open>
  What the proofs need of a relation between the old and the new state of one thread: it
  is reflexive and transitive, it allows any change of a thread that was not final, and
  it allows a thread that was not \<open>CLOSED\<close> to get a bucket and the dirty flag.
\<close>

definition thr_rel_ok :: "(msg_thr \<Rightarrow> msg_thr \<Rightarrow> bool) \<Rightarrow> bool" where
  "thr_rel_ok R =
     ((\<forall>x. R x x) \<and> (\<forall>x y z. R x y \<longrightarrow> R y z \<longrightarrow> R x z) \<and>
      (\<forall>t t'. \<not> thr_status_is_final (status t) \<longrightarrow> R t t') \<and>
      (\<forall>t d bs. status t \<noteq> CPDLC_MSG_THR_CLOSED \<longrightarrow> R t (t\<lparr>dirty := d, buckets := bs\<rparr>)))"

subsection \<open>Concrete inputs\<close>

text \<open>
  A message with one segment, an outside world in which the client is logged on and
  reports every message as sent, and the messages of a short exchange: the uplink UM20
  (response class \<open>WU\<close>, timeout 100 s) with MIN 5, the answer DM0 WILCO, and a later
  uplink with MIN 6 that refers to MIN 0.
\<close>

definition one_seg_msg ::
  "bool \<Rightarrow> int \<Rightarrow> cpdlc_resp \<Rightarrow> 32 word \<Rightarrow> 32 word \<Rightarrow> 32 word \<Rightarrow> cpdlc_msg" where
  "one_seg_msg dl ty r tmo mn mr =
     \<lparr>msg_min = mn, msg_mrn = mr, msg_from = [], msg_to = [], is_logon = False,
      segs = [\<lparr>info = \<lparr>is_dl = dl, msg_type = ty, resp = r, timeout = tmo\<rparr>, args = []\<rparr>]\<rparr>"

definition world :: "int \<Rightarrow> extern" where
  "world t =
     \<lparr>cl_msg_status = (\<lambda>_. CPDLC_MSG_STATUS_SENT), cl_logon_status = CPDLC_LOGON_COMPLETE,
      cl_send_msg = (\<lambda>_. Token 0), now = t, stamp = t, get_hours = 12, get_mins = 30,
      catalog = (\<lambda>_ _. (CPDLC_RESP_NONE, 0))\<rparr>"

definition um20_climb :: cpdlc_msg where
  "um20_climb = one_seg_msg False 20 CPDLC_RESP_WU 100 5 CPDLC_INVALID_MSG_SEQ_NR"

definition dm0_wilco :: cpdlc_msg where
  "dm0_wilco =
     one_seg_msg True CPDLC_DM0_WILCO CPDLC_RESP_NONE 0 CPDLC_INVALID_MSG_SEQ_NR
       CPDLC_INVALID_MSG_SEQ_NR"

definition um169_reply :: cpdlc_msg where
  "um169_reply = one_seg_msg False 169 CPDLC_RESP_NONE 0 6 0"

text \<open>The engine after UM20 was received and answered with WILCO, and calls made after that.\<close>

definition ml_accepted :: cpdlc_msglist where
  "ml_accepted =
     \<lparr>thr =
        [\<lparr>thr_id = 0, status = CPDLC_MSG_THR_ACCEPTED,
          buckets =
            [\<lparr>msg = um20_climb, tok = CPDLC_INVALID_MSG_TOKEN, sent = False, hours = 12,
              mins = 30, time = 0\<rparr>,
             \<lparr>msg = dm0_wilco\<lparr>msg_min := 0, msg_mrn := 5\<rparr>, tok = Token 0, sent = True,
              hours = 12, mins = 30, time = 10\<rparr>],
          dirty = True\<rparr>],
      msglist_min = 1, next_thr_id = 1, update_cb = False\<rparr>"

definition calls_after_accept :: "engine_call list" where
  "calls_after_accept =
     [Recv (world 20) [um169_reply], Update (world 30), Thr_close 0,
      Send (world 40) dm0_wilco CPDLC_NO_MSG_THR_ID]"


text \<open>A result that, if it is an abort, is a failed assertion.\<close>

definition only_assert :: "fault + 'a \<Rightarrow> bool" where
  "only_assert r = (\<forall>e. r = Inl e \<longrightarrow> e = AssertFail)"

text \<open>
  The downlink request DM6, and the engine after it was sent twice, each time into a new
  thread: the first send made thread 0, the second thread 1.
\<close>

definition dm6_req :: cpdlc_msg where
  "dm6_req =
     one_seg_msg True CPDLC_DM6_REQ_alt CPDLC_RESP_Y 0 CPDLC_INVALID_MSG_SEQ_NR
       CPDLC_INVALID_MSG_SEQ_NR"

definition ml_one_thread :: cpdlc_msglist where
  "ml_one_thread =
     \<lparr>thr =
        [\<lparr>thr_id = 0, status = CPDLC_MSG_THR_OPEN,
          buckets = [\<lparr>msg = dm6_req\<lparr>msg_min := 0\<rparr>, tok = Token 0, sent = True, hours = 12,
                      mins = 30, time = 0\<rparr>],
          dirty = False\<rparr>],
      msglist_min = 1, next_thr_id = 1, update_cb = False\<rparr>"

definition ml_two_threads :: cpdlc_msglist where
  "ml_two_threads =
     \<lparr>thr =
        [\<lparr>thr_id = 1, status = CPDLC_MSG_THR_OPEN,
          buckets = [\<lparr>msg = dm6_req\<lparr>msg_min := 1\<rparr>, tok = Token 0, sent = True, hours = 12,
                      mins = 30, time = 1\<rparr>],
          dirty = False\<rparr>,
         \<lparr>thr_id = 0, status = CPDLC_MSG_THR_OPEN,
          buckets = [\<lparr>msg = dm6_req\<lparr>msg_min := 0\<rparr>, tok = Token 0, sent = True, hours = 12,
                      mins = 30, time = 0\<rparr>],
          dirty = False\<rparr>],
      msglist_min = 2, next_thr_id = 2, update_cb = False\<rparr>"

text \<open>The threads that \<open>cpdlc_msglist_get_thr_ids\<close> lists.\<close>

definition listed :: "bool \<Rightarrow> msg_thr \<Rightarrow> bool" where
  "listed ignore_closed t = (\<not> (ignore_closed \<and> \<not> dirty t \<and> thr_status_is_final (status t)))"

text \<open>
  Every message the engine sent and still holds has a MIN below the counter from which
  the next MIN is taken.
\<close>

definition mins_below :: "cpdlc_msglist \<Rightarrow> bool" where
  "mins_below ml =
     list_all (\<lambda>t. list_all (\<lambda>b. sent b \<longrightarrow> msg_min (msg b) < msglist_min ml) (buckets t))
       (thr ml)"

text \<open>The bucket list a message is sent into, and the index of its thread.\<close>

definition send_target :: "cpdlc_msglist \<Rightarrow> 32 word \<Rightarrow> nat \<Rightarrow> bool" where
  "send_target ml tid j =
     (if tid = CPDLC_NO_MSG_THR_ID then j = 0
      else find_idx tid (thr ml) = Some j \<and> \<not> thr_status_is_final (status (thr ml ! j)))"

definition send_buckets :: "cpdlc_msglist \<Rightarrow> 32 word \<Rightarrow> nat \<Rightarrow> msg_bucket list" where
  "send_buckets ml tid j = (if tid = CPDLC_NO_MSG_THR_ID then [] else buckets (thr ml ! j))"

text \<open>An engine whose counter is at its last value before it wraps.\<close>

definition ml_wrapping :: cpdlc_msglist where
  "ml_wrapping = \<lparr>thr = [], msglist_min = 0xFFFFFFFF, next_thr_id = 0, update_cb = False\<rparr>"

text \<open>The engine after UM20 was received into a new thread.\<close>

definition ml_uplink :: cpdlc_msglist where
  "ml_uplink =
     \<lparr>thr =
        [\<lparr>thr_id = 0, status = CPDLC_MSG_THR_OPEN,
          buckets = [\<lparr>msg = um20_climb, tok = CPDLC_INVALID_MSG_TOKEN, sent = False,
                      hours = 12, mins = 30, time = 0\<rparr>],
          dirty = True\<rparr>],
      msglist_min = 0, next_thr_id = 1, update_cb = False\<rparr>"

text \<open>The engine after DM6 was sent into a new thread and the caller closed that thread.\<close>

definition ml_closed :: cpdlc_msglist where
  "ml_closed =
     \<lparr>thr =
        [\<lparr>thr_id = 0, status = CPDLC_MSG_THR_CLOSED,
          buckets = [\<lparr>msg = dm6_req\<lparr>msg_min := 0\<rparr>, tok = Token 0, sent = True, hours = 12,
                      mins = 30, time = 0\<rparr>],
          dirty = False\<rparr>],
      msglist_min = 1, next_thr_id = 1, update_cb = False\<rparr>"




text \<open>
  The engine of a ground station after the downlink request DM6 with MIN 3 was received
  and answered with an uplink of response class \<open>WU\<close> and timeout 100 s. In \<open>ml_ground\<close>
  the uplink has the type code that \<open>CPDLC_DM6_REQ_alt\<close> has among the downlinks (the
  type codes of the two directions are numbered apart: the direction is passed and tested
  next to the code throughout); in \<open>ml_ground30\<close> it has the type code 30, which is in
  none of the ranges of \<open>msg_is_dl_req\<close>.
\<close>

definition dm6_recv :: cpdlc_msg where
  "dm6_recv = one_seg_msg True CPDLC_DM6_REQ_alt CPDLC_RESP_Y 0 3 CPDLC_INVALID_MSG_SEQ_NR"

definition ul_coded_as_dm6 :: cpdlc_msg where
  "ul_coded_as_dm6 =
     one_seg_msg False CPDLC_DM6_REQ_alt CPDLC_RESP_WU 100 CPDLC_INVALID_MSG_SEQ_NR
       CPDLC_INVALID_MSG_SEQ_NR"

definition ul_coded_30 :: cpdlc_msg where
  "ul_coded_30 =
     one_seg_msg False 30 CPDLC_RESP_WU 100 CPDLC_INVALID_MSG_SEQ_NR CPDLC_INVALID_MSG_SEQ_NR"

definition ml_ground :: cpdlc_msglist where
  "ml_ground =
     \<lparr>thr =
        [\<lparr>thr_id = 0, status = CPDLC_MSG_THR_OPEN,
          buckets =
            [\<lparr>msg = dm6_recv, tok = CPDLC_INVALID_MSG_TOKEN, sent = False, hours = 12,
              mins = 30, time = 0\<rparr>,
             \<lparr>msg = ul_coded_as_dm6\<lparr>msg_min := 0, msg_mrn := 3\<rparr>, tok = Token 0, sent = True,
              hours = 12, mins = 30, time = 10\<rparr>],
          dirty = True\<rparr>],
      msglist_min = 1, next_thr_id = 1, update_cb = False\<rparr>"

definition ml_ground30 :: cpdlc_msglist where
  "ml_ground30 =
     \<lparr>thr =
        [\<lparr>thr_id = 0, status = CPDLC_MSG_THR_OPEN,
          buckets =
            [\<lparr>msg = dm6_recv, tok = CPDLC_INVALID_MSG_TOKEN, sent = False, hours = 12,
              mins = 30, time = 0\<rparr>,
             \<lparr>msg = ul_coded_30\<lparr>msg_min := 0, msg_mrn := 3\<rparr>, tok = Token 0, sent = True,
              hours = 12, mins = 30, time = 10\<rparr>],
          dirty = True\<rparr>],
      msglist_min = 1, next_thr_id = 1, update_cb = False\<rparr>"


section \<open>The routing daemon (src/cpdlcd/cpdlcd.c)\<close>

subsection \<open>Data\<close>

text \<open>
  A connection is named by the key under which the tree \<^verbatim>\<open>conns\<close> holds it. Of
  \<^verbatim>\<open>conn_t\<close> the model keeps the fields that message processing reads and writes: the
  bound callsigns, the logon flag and the output buffer (a \<^verbatim>\<open>NULL\<close> buffer is the empty
  one). C strings are strings without the terminating NUL.
\<close>

type_synonym conn_id = nat

record conn_t =
  conn_from :: string
  conn_to :: string
  logon_complete :: bool
  outbuf :: string

record queued_msg_t =
  q_from :: string
  q_to :: string
  created :: int
  q_msg :: string

text \<open>
  The daemon's global variables. \<open>conns_by_from\<close> is the multi-valued hash table of
  libacfutils, an external library: a callsign maps to the list of the connections set
  under it, and the lookup of a callsign that has none gives \<^verbatim>\<open>NULL\<close>, here the empty
  list. The byte counters are \<^verbatim>\<open>uint64_t\<close>; the budget check keeps them far from \<open>2^64\<close>,
  so they are natural numbers here.
\<close>

record daemon =
  conns :: "conn_id \<Rightarrow> conn_t option"
  conns_by_from :: "string \<Rightarrow> conn_id list"
  queued_msgs :: "queued_msg_t list"
  queued_msg_bytes :: nat
  queued_msg_max_bytes :: nat

text \<open>
  What the daemon uses of the message library, which is not under src/: the encoder
  (\<open>encode m\<close> is the text \<^verbatim>\<open>cpdlc_msg_encode\<close> writes, and its return value is the length
  of that text, as the callers' \<^verbatim>\<open>l + 1\<close> bytes for the buffer show), the allocator with
  two arguments that \<open>send_error_msg\<close> calls, and the catalog.
\<close>

record codec =
  encode :: "cpdlc_msg \<Rightarrow> string"
  alloc2 :: "32 word \<Rightarrow> 32 word \<Rightarrow> cpdlc_msg"
  cat :: "bool \<Rightarrow> int \<Rightarrow> cpdlc_resp \<times> 32 word"

definition CALLSIGN_LEN :: nat where "CALLSIGN_LEN = 16"
definition QUEUED_MSG_TIMEOUT :: int where "QUEUED_MSG_TIMEOUT = 3600"

text \<open>
  \<^verbatim>\<open>sizeof (queued_msg_t)\<close> on an LP64 platform: two callsigns of 16 bytes, a \<^verbatim>\<open>time_t\<close>, a
  pointer and a list node of two pointers.
\<close>

definition sizeof_queued_msg :: nat where "sizeof_queued_msg = 64"

text \<open>
  Modelled from the spec: \<^verbatim>\<open>lacf_strlcpy\<close> (libacfutils) copies at most \<open>cap - 1\<close> bytes, and
  \<^verbatim>\<open>cpdlc_msg_set_from\<close>, \<^verbatim>\<open>cpdlc_msg_get_from\<close> and \<^verbatim>\<open>cpdlc_msg_get_to\<close> write and read
  the callsigns of a message.
\<close>

definition lacf_strlcpy :: "string \<Rightarrow> nat \<Rightarrow> string" where
  "lacf_strlcpy src cap = take (cap - 1) src"

definition cpdlc_msg_set_from :: "cpdlc_msg \<Rightarrow> string \<Rightarrow> cpdlc_msg" where
  "cpdlc_msg_set_from m s = m\<lparr>msg_from := s\<rparr>"

definition cpdlc_msg_get_from :: "cpdlc_msg \<Rightarrow> string" where
  "cpdlc_msg_get_from m = msg_from m"

definition cpdlc_msg_get_to :: "cpdlc_msg \<Rightarrow> string" where
  "cpdlc_msg_get_to m = msg_to m"

definition init_structs :: daemon where
  "init_structs =
     \<lparr>conns = (\<lambda>_. None), conns_by_from = (\<lambda>_. []), queued_msgs = [],
      queued_msg_bytes = 0, queued_msg_max_bytes = 134217728\<rparr>"

subsection \<open>Connections and the callsign index\<close>

text \<open>
  \<open>handle_accepts\<close> for one accepted socket: a zeroed connection is put into the tree
  unless one with the same key is there.
\<close>

definition handle_accepts :: "daemon \<Rightarrow> conn_id \<Rightarrow> daemon" where
  "handle_accepts st c =
     (case conns st c of
        Some _ \<Rightarrow> st
      | None \<Rightarrow>
          st\<lparr>conns := (conns st)(c \<mapsto>
               \<lparr>conn_from = [], conn_to = [], logon_complete = False, outbuf = []\<rparr>)\<rparr>)"

definition htbl_set :: "daemon \<Rightarrow> string \<Rightarrow> conn_id \<Rightarrow> daemon" where
  "htbl_set st k c = st\<lparr>conns_by_from := (conns_by_from st)(k := c # conns_by_from st k)\<rparr>"

definition conn_remove_from :: "daemon \<Rightarrow> conn_id \<Rightarrow> fault + daemon" where
  "conn_remove_from st c =
     (case conns st c of
        None \<Rightarrow> Inl AssertFail
      | Some conn \<Rightarrow>
          if \<not> logon_complete conn then Inl AssertFail
          else if conns_by_from st (conn_from conn) = [] then Inl AssertFail
          else Inr (st\<lparr>conns_by_from := (conns_by_from st)
                         (conn_from conn := remove1 c (conns_by_from st (conn_from conn))),
                       conns := (conns st)(c \<mapsto> conn\<lparr>logon_complete := False,
                                                         conn_from := []\<rparr>)\<rparr>))"

definition close_conn :: "daemon \<Rightarrow> conn_id \<Rightarrow> fault + daemon" where
  "close_conn st c =
     (case conns st c of
        None \<Rightarrow> Inl NullDeref
      | Some conn \<Rightarrow>
          bnd (if logon_complete conn then conn_remove_from st c else Inr st) (\<lambda>st1.
            Inr (st1\<lparr>conns := (conns st1)(c := None)\<rparr>)))"

subsection \<open>Writing to a connection\<close>

definition conn_send_buf :: "daemon \<Rightarrow> conn_id \<Rightarrow> string \<Rightarrow> fault + daemon" where
  "conn_send_buf st c buf =
     (case conns st c of
        None \<Rightarrow> Inl AssertFail
      | Some conn \<Rightarrow>
          if buf = [] then Inl AssertFail
          else Inr (st\<lparr>conns := (conns st)(c \<mapsto> conn\<lparr>outbuf := outbuf conn @ buf\<rparr>)\<rparr>))"

definition conn_send_msg :: "codec \<Rightarrow> daemon \<Rightarrow> conn_id \<Rightarrow> cpdlc_msg \<Rightarrow> fault + daemon" where
  "conn_send_msg cd st c m = conn_send_buf st c (encode cd m)"

text \<open>The message \<open>send_error_msg\<close> builds for the text \<open>buf\<close>.\<close>

definition error_msg :: "codec \<Rightarrow> cpdlc_msg option \<Rightarrow> string \<Rightarrow> cpdlc_msg" where
  "error_msg cd orig_msg buf =
     cpdlc_msg_seg_set_arg
       (case orig_msg of
          Some orig \<Rightarrow>
            if cpdlc_msg_get_dl orig
            then cpdlc_msg_add_seg (cat cd) (alloc2 cd 0 (cpdlc_msg_get_min orig)) False
                   CPDLC_UM159_ERROR_description
            else cpdlc_msg_add_seg (cat cd) (alloc2 cd 0 (cpdlc_msg_get_min orig)) True
                   CPDLC_DM62_ERROR_errorinfo
        | None \<Rightarrow>
            cpdlc_msg_add_seg (cat cd) (alloc2 cd 0 0) False CPDLC_UM159_ERROR_description)
       0 0 buf"

definition send_error_msg ::
  "codec \<Rightarrow> daemon \<Rightarrow> conn_id \<Rightarrow> cpdlc_msg option \<Rightarrow> string \<Rightarrow> fault + daemon" where
  "send_error_msg cd st c orig_msg buf = conn_send_msg cd st c (error_msg cd orig_msg buf)"

subsection \<open>Logon\<close>

text \<open>\<open>process_logon_msg\<close> returns the daemon and the function's result.\<close>

definition process_logon_msg ::
  "codec \<Rightarrow> daemon \<Rightarrow> conn_id \<Rightarrow> cpdlc_msg \<Rightarrow> fault + (daemon \<times> bool)" where
  "process_logon_msg cd st c m =
     (case conns st c of
        None \<Rightarrow> Inl AssertFail
      | Some conn0 \<Rightarrow>
          bnd (if logon_complete conn0 then conn_remove_from st c else Inr st) (\<lambda>st1.
            case conns st1 c of
              None \<Rightarrow> Inl NullDeref
            | Some conn1 \<Rightarrow>
                let conn2 = conn1\<lparr>logon_complete := True,
                                 conn_to := lacf_strlcpy (cpdlc_msg_get_to m) CALLSIGN_LEN,
                                 conn_from := lacf_strlcpy (cpdlc_msg_get_from m) CALLSIGN_LEN\<rparr>;
                    st2 = st1\<lparr>conns := (conns st1)(c \<mapsto> conn2)\<rparr>
                in
                if conn_from conn2 = [] then
                  bnd (send_error_msg cd st2 c (Some m) ''LOGON REQUIRES FROM= HEADER'')
                    (\<lambda>st3. Inr (st3, False))
                else Inr (htbl_set st2 (conn_from conn2) c, True)))"

subsection \<open>The queue\<close>

text \<open>\<open>store_msg\<close> at time \<open>tnow\<close>; it returns the daemon and the function's result.\<close>

definition store_msg :: "codec \<Rightarrow> int \<Rightarrow> daemon \<Rightarrow> cpdlc_msg \<Rightarrow> string \<Rightarrow> daemon \<times> bool" where
  "store_msg cd tnow st m to =
     (let l = length (encode cd m);
          bytes = sizeof_queued_msg + l + 1
      in
      if queued_msg_bytes st + bytes > queued_msg_max_bytes st then (st, False)
      else
        (st\<lparr>queued_msgs := queued_msgs st @
               [\<lparr>q_from = lacf_strlcpy (cpdlc_msg_get_from m) CALLSIGN_LEN,
                 q_to = lacf_strlcpy to CALLSIGN_LEN, created = tnow, q_msg = encode cd m\<rparr>],
             queued_msg_bytes := queued_msg_bytes st + bytes\<rparr>, True))"

text \<open>\<open>dequeue_msg st i\<close> takes the entry at position \<open>i\<close> off the queue.\<close>

definition dequeue_msg :: "daemon \<Rightarrow> nat \<Rightarrow> fault + daemon" where
  "dequeue_msg st i =
     (if i \<ge> length (queued_msgs st) then Inl NullDeref
      else
        let bytes = sizeof_queued_msg + length (q_msg (queued_msgs st ! i)) + 1 in
        if queued_msg_bytes st < bytes then Inl AssertFail
        else
          let st1 = st\<lparr>queued_msg_bytes := queued_msg_bytes st - bytes,
                       queued_msgs := take i (queued_msgs st) @ drop (Suc i) (queued_msgs st)\<rparr>
          in if queued_msgs st1 = [] \<and> queued_msg_bytes st1 \<noteq> 0 then Inl AssertFail
             else Inr st1)"

text \<open>The loop that writes one text to every connection of a list.\<close>

fun send_buf_all :: "daemon \<Rightarrow> conn_id list \<Rightarrow> string \<Rightarrow> fault + daemon" where
  "send_buf_all st [] buf = Inr st"
| "send_buf_all st (c # cs) buf = bnd (conn_send_buf st c buf) (\<lambda>st1. send_buf_all st1 cs buf)"

text \<open>
  \<open>handle_queued_msgs\<close>: the loop visits the entries that are queued when it starts;
  \<open>i\<close> is the position of the entry at hand in the queue as it stands.
\<close>

fun queued_loop :: "int \<Rightarrow> queued_msg_t list \<Rightarrow> nat \<Rightarrow> daemon \<Rightarrow> fault + daemon" where
  "queued_loop tnow [] i st = Inr st"
| "queued_loop tnow (q # rest) i st =
     (let l = conns_by_from st (q_to q) in
      if l \<noteq> [] then
        bnd (send_buf_all st l (q_msg q)) (\<lambda>st1.
        bnd (dequeue_msg st1 i) (\<lambda>st2. queued_loop tnow rest i st2))
      else if tnow - created q > QUEUED_MSG_TIMEOUT then
        bnd (dequeue_msg st i) (\<lambda>st2. queued_loop tnow rest i st2)
      else queued_loop tnow rest (Suc i) st)"

definition handle_queued_msgs :: "int \<Rightarrow> daemon \<Rightarrow> fault + daemon" where
  "handle_queued_msgs tnow st = queued_loop tnow (queued_msgs st) 0 st"

subsection \<open>Processing a message\<close>

definition conn_process_msg ::
  "codec \<Rightarrow> int \<Rightarrow> daemon \<Rightarrow> conn_id \<Rightarrow> cpdlc_msg \<Rightarrow> fault + daemon" where
  "conn_process_msg cd tnow st c m =
     (case conns st c of
        None \<Rightarrow> Inl AssertFail
      | Some conn0 \<Rightarrow>
          if \<not> logon_complete conn0 \<and> \<not> is_logon m then
            send_error_msg cd st c (Some m) ''LOGON REQUIRED''
          else
            bnd (if is_logon m then process_logon_msg cd st c m else Inr (st, True))
              (\<lambda>(st1, ok).
                if \<not> ok then Inr st1
                else (case conns st1 c of
                  None \<Rightarrow> Inl NullDeref
                | Some conn \<Rightarrow>
                    if msg_to m = [] \<and> conn_to conn = [] then
                      send_error_msg cd st1 c (Some m) ''MESSAGE MISSING TO= HEADER''
                    else
                      let to = (if msg_to m \<noteq> [] then lacf_strlcpy (msg_to m) CALLSIGN_LEN
                                else lacf_strlcpy (conn_to conn) CALLSIGN_LEN)
                      in
                      if conn_from conn = [] then Inl AssertFail
                      else
                        let m1 = cpdlc_msg_set_from m (conn_from conn);
                            l = conns_by_from st1 to
                        in
                        if l = [] then
                          (case store_msg cd tnow st1 m1 to of
                             (st2, True) \<Rightarrow> Inr st2
                           | (st2, False) \<Rightarrow>
                               send_error_msg cd st2 c (Some m1) ''TOO MANY QUEUED MESSAGES'')
                        else send_buf_all st1 l (encode cd m1))))"

text \<open>
  \<open>conn_process_input\<close>: \<open>msgs\<close> are the messages the decoder finds in the input buffer,
  in order; \<open>decode_ok\<close> is false when the decoder then reports an error, and true when it
  reports that no complete message is left. The result is the daemon and the function's
  result.
\<close>

fun process_msgs :: "codec \<Rightarrow> int \<Rightarrow> daemon \<Rightarrow> conn_id \<Rightarrow> cpdlc_msg list \<Rightarrow> fault + daemon" where
  "process_msgs cd tnow st c [] = Inr st"
| "process_msgs cd tnow st c (m # ms) =
     bnd (conn_process_msg cd tnow st c m) (\<lambda>st1. process_msgs cd tnow st1 c ms)"

definition conn_process_input ::
  "codec \<Rightarrow> int \<Rightarrow> daemon \<Rightarrow> conn_id \<Rightarrow> cpdlc_msg list \<Rightarrow> bool \<Rightarrow> fault + (daemon \<times> bool)" where
  "conn_process_input cd tnow st c msgs decode_ok =
     bnd (process_msgs cd tnow st c msgs) (\<lambda>st1. Inr (st1, decode_ok))"

text \<open>
  \<open>handle_conn_input\<close> for one record read from a live connection: the connection is
  closed when \<open>conn_process_input\<close> returns false.
\<close>

definition handle_conn_input ::
  "codec \<Rightarrow> int \<Rightarrow> daemon \<Rightarrow> conn_id \<Rightarrow> cpdlc_msg list \<Rightarrow> bool \<Rightarrow> fault + daemon" where
  "handle_conn_input cd tnow st c msgs decode_ok =
     (case conns st c of
        None \<Rightarrow> Inl NullDeref
      | Some _ \<Rightarrow>
          bnd (conn_process_input cd tnow st c msgs decode_ok) (\<lambda>(st1, ok).
            if ok then Inr st1 else close_conn st1 c))"

subsection \<open>Runs of the daemon\<close>

text \<open>
  What happens to the daemon, as far as the structures above go: a connection is
  accepted, a record with messages is read from a connection, a connection is closed
  (end of file, a read error, the blocklist), and the queue is walked at the end of a turn
  of the main loop.
\<close>

datatype daemon_event =
  Accept conn_id
  | Input int conn_id "cpdlc_msg list" bool
  | Close conn_id
  | Queue int

fun daemon_step :: "codec \<Rightarrow> daemon \<Rightarrow> daemon_event \<Rightarrow> fault + daemon" where
  "daemon_step cd st (Accept c) = Inr (handle_accepts st c)"
| "daemon_step cd st (Input tnow c msgs decode_ok) = handle_conn_input cd tnow st c msgs decode_ok"
| "daemon_step cd st (Close c) = close_conn st c"
| "daemon_step cd st (Queue tnow) = handle_queued_msgs tnow st"

fun daemon_run :: "codec \<Rightarrow> daemon \<Rightarrow> daemon_event list \<Rightarrow> fault + daemon" where
  "daemon_run cd st [] = Inr st"
| "daemon_run cd st (e # es) = bnd (daemon_step cd st e) (\<lambda>st1. daemon_run cd st1 es)"

text \<open>The bytes the queue accounts for one entry, and for all of them.\<close>

definition entry_bytes :: "queued_msg_t \<Rightarrow> nat" where
  "entry_bytes q = sizeof_queued_msg + length (q_msg q) + 1"

definition queue_accounted :: "daemon \<Rightarrow> bool" where
  "queue_accounted st = (queued_msg_bytes st = sum_list (map entry_bytes (queued_msgs st)))"

text \<open>Two states of the daemon with the same queue and the same byte counters.\<close>

definition same_queue :: "daemon \<Rightarrow> daemon \<Rightarrow> bool" where
  "same_queue st st' =
     (queued_msgs st' = queued_msgs st \<and> queued_msg_bytes st' = queued_msg_bytes st \<and>
      queued_msg_max_bytes st' = queued_msg_max_bytes st)"

subsection \<open>Concrete inputs\<close>

text \<open>
  A codec whose text shows the callsigns and the arguments of a message, the logon of
  station \<open>B\<close> to \<open>ATC1\<close>, a logon without \<open>FROM\<close>, and a message without callsigns.
\<close>

definition codec0 :: codec where
  "codec0 =
     \<lparr>encode = (\<lambda>m. ''FROM='' @ msg_from m @ '' TO='' @ msg_to m @ '' MSG='' @
                    concat (concat (map args (segs m)))),
      alloc2 = (\<lambda>a b. cpdlc_msg_alloc\<lparr>msg_min := a, msg_mrn := b\<rparr>),
      cat = (\<lambda>_ _. (CPDLC_RESP_NONE, 0))\<rparr>"

definition logon_b :: cpdlc_msg where
  "logon_b = cpdlc_msg_alloc\<lparr>msg_min := 0, msg_from := ''B'', msg_to := ''ATC1'', is_logon := True\<rparr>"

definition logon_nobody :: cpdlc_msg where
  "logon_nobody = cpdlc_msg_alloc\<lparr>msg_min := 0, msg_to := ''ATC1'', is_logon := True\<rparr>"

definition plain_msg :: cpdlc_msg where
  "plain_msg = dm6_req\<lparr>msg_min := 1\<rparr>"

text \<open>The daemon after one connection was accepted and station \<open>B\<close> logged on over it.\<close>

definition st_b_logged_on :: daemon where
  "st_b_logged_on =
     \<lparr>conns = (\<lambda>_. None)(1 \<mapsto> \<lparr>conn_from = ''B'', conn_to = ''ATC1'', logon_complete = True,
                                   outbuf = []\<rparr>),
      conns_by_from = (\<lambda>_. [])(''B'' := [1]),
      queued_msgs = [\<lparr>q_from = ''B'', q_to = ''ATC1'', created = 0,
                       q_msg = ''FROM=B TO=ATC1 MSG=''\<rparr>],
      queued_msg_bytes = 84, queued_msg_max_bytes = 134217728\<rparr>"

text \<open>
  The logon of station \<open>ATC1\<close>, the daemon after \<open>ATC1\<close> and then \<open>B\<close> logged on over
  connections 2 and 1, and a daemon whose budget leaves no room for another message.
\<close>

definition logon_atc :: cpdlc_msg where
  "logon_atc = cpdlc_msg_alloc\<lparr>msg_min := 0, msg_from := ''ATC1'', is_logon := True\<rparr>"

definition st_two :: daemon where
  "st_two =
     \<lparr>conns = ((\<lambda>_. None)
         (2 \<mapsto> \<lparr>conn_from = ''ATC1'', conn_to = [], logon_complete = True,
                 outbuf = ''FROM= TO= MSG=MESSAGE MISSING TO= HEADERFROM=B TO=ATC1 MSG=''\<rparr>))
         (1 \<mapsto> \<lparr>conn_from = ''B'', conn_to = ''ATC1'', logon_complete = True, outbuf = []\<rparr>),
      conns_by_from = ((\<lambda>_. [])(''ATC1'' := [2]))(''B'' := [1]),
      queued_msgs = [], queued_msg_bytes = 0, queued_msg_max_bytes = 134217728\<rparr>"

definition st_full :: daemon where
  "st_full = st_b_logged_on\<lparr>queued_msg_max_bytes := 100\<rparr>"

text \<open>
  What the daemon keeps true of the index: no entry holds a connection twice, no entry
  stands under the empty callsign, and every connection of the entry for \<open>k\<close> is live,
  has its flag set and is bound to \<open>k\<close>.
\<close>

definition index_ok :: "daemon \<Rightarrow> bool" where
  "index_ok st =
     (\<forall>k. distinct (conns_by_from st k) \<and>
          (\<forall>t \<in> set (conns_by_from st k).
             k \<noteq> [] \<and> (\<exists>tc. conns st t = Some tc \<and> logon_complete tc \<and> conn_from tc = k)))"

text \<open>
  And the other way round: every live connection whose flag is set and whose callsign is
  not empty stands in the entry of the index for its callsign.
\<close>

definition index_complete :: "daemon \<Rightarrow> bool" where
  "index_complete st =
     (\<forall>t tc. conns st t = Some tc \<and> logon_complete tc \<and> conn_from tc \<noteq> [] \<longrightarrow>
        t \<in> set (conns_by_from st (conn_from tc)))"

text \<open>
  The daemon after connection 1 was accepted, and after the logon step bound it to the
  callsigns of \<open>logon_b\<close>, before that logon message is routed.
\<close>

definition st_accepted :: daemon where
  "st_accepted = handle_accepts init_structs 1"

definition st_b_bound :: daemon where
  "st_b_bound = st_b_logged_on\<lparr>queued_msgs := [], queued_msg_bytes := 0\<rparr>"

section \<open>Lemmas about the thread engine\<close>


lemma bnd_Inr_iff: "bnd r f = Inr y \<longleftrightarrow> (\<exists>v. r = Inr v \<and> f v = Inr y)"
  by (cases r) (simp_all add: bnd_def)

lemma bnd_Inr [simp]: "bnd (Inr v) f = f v"
  by (simp add: bnd_def)

lemma bnd_Inl [simp]: "bnd (Inl e) f = Inl e"
  by (simp add: bnd_def)

lemma thr_status_upd_final:
  "i < length (thr ml) \<Longrightarrow> thr_status_is_final (status (thr ml ! i)) \<Longrightarrow> thr_status_upd ex ml i = Inr ml"
  by (simp add: thr_status_upd_def)

lemma find_idx_Some: "find_idx tid ts = Some i \<Longrightarrow> i < length ts \<and> thr_id (ts ! i) = tid"
  by (induction ts arbitrary: i) (auto split: if_splits option.splits)

lemma thr_close_final:
  "tid \<noteq> CPDLC_NO_MSG_THR_ID \<Longrightarrow> find_idx tid (thr ml) = Some i \<Longrightarrow> thr_status_is_final (status (thr ml ! i))
   \<Longrightarrow> cpdlc_msglist_thr_close ml tid = Inr ml"
  by (simp add: cpdlc_msglist_thr_close_def find_msg_thr_def)

lemma thr_status_upd_cases:
  assumes "thr_status_upd ex ml i = Inr ml'"
  shows "i < length (thr ml) \<and>
    (ml' = ml \<or>
     (\<not> thr_status_is_final (status (thr ml ! i)) \<and>
      ((\<exists>s. ml' = set_status ml i s) \<or>
       (\<exists>ml1 j. msglist_send_impl ex ml (timedout_msg ex (last (buckets (thr ml ! i)))) (thr_id (thr ml ! i)) = Inr (ml1, j) \<and>
           ml' = set_status ml1 (i + (length (thr ml1) - length (thr ml))) CPDLC_MSG_THR_TIMEDOUT) \<or>
       ml' = ml\<lparr>thr := (thr ml)[i := (thr ml ! i)\<lparr>dirty := False, status := CPDLC_MSG_THR_CONN_ENDED\<rparr>]\<rparr>)))"
proof -
  from assms have i: "i < length (thr ml)"
    by (auto simp: thr_status_upd_def split: if_splits)
  show ?thesis
  proof (cases "thr_status_is_final (status (thr ml ! i))")
    case True
    with i assms show ?thesis by (simp add: thr_status_upd_def)
  next
    case False
    with i assms obtain a where a: "thr_status_branch ex (thr ml ! i) = Inr a"
      and r: "(case a of
            Set_status s \<Rightarrow> Inr (set_status ml i s)
          | Send_timedout \<Rightarrow>
              bnd (msglist_send_impl ex ml (timedout_msg ex (last (buckets (thr ml ! i)))) (thr_id (thr ml ! i)))
                (\<lambda>(ml1, j).
                  Inr (set_status ml1 (i + (length (thr ml1) - length (thr ml)))
                         CPDLC_MSG_THR_TIMEDOUT))
          | Conn_ended \<Rightarrow>
              Inr (ml\<lparr>thr := (thr ml)[i := (thr ml ! i)\<lparr>dirty := False,
                                               status := CPDLC_MSG_THR_CONN_ENDED\<rparr>]\<rparr>)
          | No_change \<Rightarrow> Inr ml) = Inr ml'"
      by (auto simp: thr_status_upd_def bnd_Inr_iff Let_def)
    show ?thesis
    proof (cases a)
      case (Set_status s)
      with r i False show ?thesis by auto
    next
      case Send_timedout
      with r i False show ?thesis by (auto simp: bnd_Inr_iff)
    next
      case Conn_ended
      with r i False show ?thesis by auto
    next
      case No_change
      with r i False show ?thesis by auto
    qed
  qed
qed


subsection \<open>suffix_rel\<close>

lemma suffix_relI:
  assumes "ts' = new @ rest" "list_all2 R ts rest"
  shows "suffix_rel R ts ts'"
proof -
  from assms(2) have "length ts = length rest" by (rule list_all2_lengthD)
  with assms show ?thesis by (simp add: suffix_rel_def)
qed

lemma suffix_relE:
  assumes "suffix_rel R ts ts'"
  obtains new rest where "ts' = new @ rest" "list_all2 R ts rest"
  using assms unfolding suffix_rel_def
  by (metis append_take_drop_id)

lemma suffix_rel_refl: "(\<And>x. R x x) \<Longrightarrow> suffix_rel R ts ts"
  by (simp add: suffix_rel_def list_all2_refl)

lemma suffix_rel_trans:
  assumes tr: "\<And>x y z. R x y \<Longrightarrow> R y z \<Longrightarrow> R x z"
    and 1: "suffix_rel R ts ts'" and 2: "suffix_rel R ts' ts''"
  shows "suffix_rel R ts ts''"
proof -
  from 1 obtain new rest where a: "ts' = new @ rest" "list_all2 R ts rest"
    by (rule suffix_relE)
  from 2 obtain new2 rest2 where b: "ts'' = new2 @ rest2" "list_all2 R ts' rest2"
    by (rule suffix_relE)
  from b(2) a(1) obtain r1 r2 where c: "rest2 = r1 @ r2" "list_all2 R new r1" "list_all2 R rest r2"
    by (auto simp: list_all2_append1)
  from a(2) c(3) have "list_all2 R ts r2"
    by (rule list_all2_trans[rotated]) (rule tr)
  moreover have "ts'' = (new2 @ r1) @ r2" using b(1) c(1) by simp
  ultimately show ?thesis by (rule suffix_relI[rotated])
qed

lemma suffix_rel_Cons: "suffix_rel R ts ts' \<Longrightarrow> suffix_rel R ts (x # ts')"
  by (erule suffix_relE) (auto intro: suffix_relI[where new="x # new" for new])

lemma suffix_rel_update:
  assumes "\<And>x. R x x" "i < length ts \<Longrightarrow> R (ts ! i) t'"
  shows "suffix_rel R ts (ts[i := t'])"
proof -
  have "list_all2 R ts (ts[i := t'])"
    unfolding list_all2_conv_all_nth
  proof (intro conjI allI impI)
    fix k assume "k < length ts"
    then show "R (ts ! k) (ts[i := t'] ! k)"
      using assms by (cases "k = i") simp_all
  qed simp
  then show ?thesis by (rule suffix_relI[where new="[]", rotated]) simp
qed


lemma suffix_rel_length: "suffix_rel R ts ts' \<Longrightarrow> length ts \<le> length ts'"
  by (simp add: suffix_rel_def)

lemma suffix_rel_update_shift:
  assumes 1: "suffix_rel R ts ts'" and 2: "i < length ts \<Longrightarrow> R (ts ! i) x"
  shows "suffix_rel R ts (ts'[i + (length ts' - length ts) := x])"
proof -
  from 1 obtain new rest where a: "ts' = new @ rest" "list_all2 R ts rest"
    by (rule suffix_relE)
  from a(2) have len: "length ts = length rest" by (rule list_all2_lengthD)
  have d: "length ts' - length ts = length new" using a(1) len by simp
  have "list_all2 R ts (rest[i := x])"
    unfolding list_all2_conv_all_nth
  proof (intro conjI allI impI)
    show "length ts = length (rest[i := x])" using len by simp
    fix k assume k: "k < length ts"
    show "R (ts ! k) (rest[i := x] ! k)"
    proof (cases "k = i")
      case True
      with k 2 len show ?thesis by simp
    next
      case False
      with k a(2) show ?thesis by (simp add: list_all2_conv_all_nth)
    qed
  qed
  moreover have "ts'[i + (length ts' - length ts) := x] = new @ rest[i := x]"
    using a(1) d by (simp add: list_update_append)
  ultimately show ?thesis by (rule suffix_relI[rotated])
qed

lemma thr_rel_okD:
  assumes "thr_rel_ok R"
  shows "R x x" and "R x y \<Longrightarrow> R y z \<Longrightarrow> R x z"
    and "\<not> thr_status_is_final (status t) \<Longrightarrow> R t t'"
    and "status t \<noteq> CPDLC_MSG_THR_CLOSED \<Longrightarrow> R t (t\<lparr>dirty := d, buckets := bs\<rparr>)"
  using assms unfolding thr_rel_ok_def by blast+

lemma thr_rel_ok_bucket:
  assumes "thr_rel_ok R" "status t \<noteq> CPDLC_MSG_THR_CLOSED"
  shows "R t (t\<lparr>buckets := bs\<rparr>)"
proof -
  have "R t (t\<lparr>dirty := dirty t, buckets := bs\<rparr>)" using assms by (rule thr_rel_okD(4))
  then show ?thesis by simp
qed

lemma suffix_rel_trans_ok:
  "thr_rel_ok R \<Longrightarrow> suffix_rel R a b \<Longrightarrow> suffix_rel R b c \<Longrightarrow> suffix_rel R a c"
  by (rule suffix_rel_trans[where R=R]) (auto dest: thr_rel_okD(2))

lemma suffix_rel_refl_ok: "thr_rel_ok R \<Longrightarrow> suffix_rel R a a"
  by (rule suffix_rel_refl) (rule thr_rel_okD(1))

lemma final_CLOSED [simp]: "thr_status_is_final CPDLC_MSG_THR_CLOSED"
  by (simp add: thr_status_is_final_def)

lemma not_final_not_CLOSED: "\<not> thr_status_is_final s \<Longrightarrow> s \<noteq> CPDLC_MSG_THR_CLOSED"
  by auto

lemma status_kept_ok: "thr_rel_ok status_kept"
  by (auto simp: thr_rel_ok_def status_kept_def)

lemma closed_same_ok: "thr_rel_ok closed_same"
  by (auto simp: thr_rel_ok_def closed_same_def)

subsection \<open>The send path\<close>

lemma find_msg_thr_new:
  "find_msg_thr ml CPDLC_NO_MSG_THR_ID =
     Inr (ml\<lparr>thr := \<lparr>thr_id = next_thr_id ml, status = calloc_status, buckets = [],
                       dirty = False\<rparr> # thr ml,
               next_thr_id := next_thr_id ml + 1\<rparr>, 0)"
  by (simp add: find_msg_thr_def)

lemma find_msg_thr_old:
  "tid \<noteq> CPDLC_NO_MSG_THR_ID \<Longrightarrow>
   find_msg_thr ml tid = (case find_idx tid (thr ml) of Some i \<Rightarrow> Inr (ml, i) | None \<Rightarrow> Inl VerifyFail)"
  by (simp add: find_msg_thr_def)

lemma assign_mrn_Nil [simp]: "assign_mrn [] m = m"
  by (simp add: assign_mrn_def)

lemma send_impl_new:
  "msglist_send_impl ex ml m CPDLC_NO_MSG_THR_ID =
     Inr (ml\<lparr>thr := \<lparr>thr_id = next_thr_id ml, status = CPDLC_MSG_THR_OPEN,
                       buckets = [sent_bucket ex (msglist_min ml) [] m], dirty = False\<rparr> # thr ml,
               next_thr_id := next_thr_id ml + 1,
               msglist_min := msglist_min ml + 1\<rparr>, 0)"
  by (simp add: msglist_send_impl_def find_msg_thr_new)

lemma send_impl_old:
  assumes "tid \<noteq> CPDLC_NO_MSG_THR_ID"
  shows "msglist_send_impl ex ml m tid = Inr r \<longleftrightarrow>
     (\<exists>j. find_idx tid (thr ml) = Some j \<and> \<not> thr_status_is_final (status (thr ml ! j)) \<and>
        r = (ml\<lparr>thr := (thr ml)[j := (thr ml ! j)\<lparr>buckets := buckets (thr ml ! j) @
                     [sent_bucket ex (msglist_min ml) (buckets (thr ml ! j)) m]\<rparr>],
                 msglist_min := msglist_min ml + 1\<rparr>, j))"
  using assms
  by (cases "find_idx tid (thr ml)")
     (auto simp: msglist_send_impl_def find_msg_thr_old Let_def)

lemma send_impl_rel:
  assumes ok: "thr_rel_ok R" and s: "msglist_send_impl ex ml m tid = Inr (ml1, j)"
  shows "suffix_rel R (thr ml) (thr ml1)"
proof (cases "tid = CPDLC_NO_MSG_THR_ID")
  case True
  with s have "thr ml1 = hd (thr ml1) # thr ml" by (auto simp: send_impl_new)
  moreover have "suffix_rel R (thr ml) (hd (thr ml1) # thr ml)"
    by (rule suffix_rel_Cons) (rule suffix_rel_refl_ok[OF ok])
  ultimately show ?thesis by simp
next
  case False
  with s obtain j' where j: "find_idx tid (thr ml) = Some j'"
      "\<not> thr_status_is_final (status (thr ml ! j'))"
      "thr ml1 = (thr ml)[j' := (thr ml ! j')\<lparr>buckets := buckets (thr ml ! j') @
                     [sent_bucket ex (msglist_min ml) (buckets (thr ml ! j')) m]\<rparr>]"
    by (auto simp: send_impl_old)
  have "suffix_rel R (thr ml) ((thr ml)[j' := (thr ml ! j')\<lparr>buckets := buckets (thr ml ! j') @
                     [sent_bucket ex (msglist_min ml) (buckets (thr ml ! j')) m]\<rparr>])"
    by (rule suffix_rel_update) (rule thr_rel_okD(1)[OF ok], rule thr_rel_okD(3)[OF ok j(2)])
  with j(3) show ?thesis by simp
qed

lemma thr_status_upd_rel:
  assumes ok: "thr_rel_ok R" and u: "thr_status_upd ex ml i = Inr ml'"
  shows "suffix_rel R (thr ml) (thr ml')"
proof -
  note c = thr_status_upd_cases[OF u]
  then have i: "i < length (thr ml)" by simp
  from c consider (same) "ml' = ml"
    | (set) s where "\<not> thr_status_is_final (status (thr ml ! i))" "ml' = set_status ml i s"
    | (tmo) ml1 j where "\<not> thr_status_is_final (status (thr ml ! i))"
        "msglist_send_impl ex ml (timedout_msg ex (last (buckets (thr ml ! i)))) (thr_id (thr ml ! i)) = Inr (ml1, j)"
        "ml' = set_status ml1 (i + (length (thr ml1) - length (thr ml))) CPDLC_MSG_THR_TIMEDOUT"
    | (ended) "\<not> thr_status_is_final (status (thr ml ! i))"
        "ml' = ml\<lparr>thr := (thr ml)[i := (thr ml ! i)\<lparr>dirty := False, status := CPDLC_MSG_THR_CONN_ENDED\<rparr>]\<rparr>"
    by blast
  then show ?thesis
  proof cases
    case same
    then show ?thesis by (simp add: suffix_rel_refl_ok[OF ok])
  next
    case (set s)
    have "suffix_rel R (thr ml) ((thr ml)[i := (thr ml ! i)\<lparr>status := s\<rparr>])"
      by (rule suffix_rel_update) (rule thr_rel_okD(1)[OF ok], rule thr_rel_okD(3)[OF ok set(1)])
    with set(2) show ?thesis by (simp add: set_status_def)
  next
    case (tmo ml1 j)
    have "suffix_rel R (thr ml) (thr ml1)" using ok tmo(2) by (rule send_impl_rel)
    then have "suffix_rel R (thr ml) ((thr ml1)[i + (length (thr ml1) - length (thr ml)) :=
        (thr ml1 ! (i + (length (thr ml1) - length (thr ml))))\<lparr>status := CPDLC_MSG_THR_TIMEDOUT\<rparr>])"
      by (rule suffix_rel_update_shift) (rule thr_rel_okD(3)[OF ok tmo(1)])
    with tmo(3) show ?thesis by (simp add: set_status_def)
  next
    case ended
    have "suffix_rel R (thr ml) ((thr ml)[i := (thr ml ! i)\<lparr>dirty := False, status := CPDLC_MSG_THR_CONN_ENDED\<rparr>])"
      by (rule suffix_rel_update) (rule thr_rel_okD(1)[OF ok], rule thr_rel_okD(3)[OF ok ended(1)])
    with ended(2) show ?thesis by simp
  qed
qed


subsection \<open>Receiving\<close>

lemma thr_scan_Some:
  "thr_scan m ts = Inr (Some i) \<Longrightarrow>
     i < length ts \<and> status (rev ts ! i) \<noteq> CPDLC_MSG_THR_CLOSED \<and>
     bucket_scan m (rev (buckets (rev ts ! i))) = Inr True"
proof (induction ts)
  case Nil
  then show ?case by simp
next
  case (Cons t ts)
  from Cons.prems consider
      (here) "status t \<noteq> CPDLC_MSG_THR_CLOSED" "bucket_scan m (rev (buckets t)) = Inr True"
        "i = length ts"
    | (later) "thr_scan m ts = Inr (Some i)"
    by (auto simp: bnd_Inr_iff split: if_splits)
  then show ?case
  proof cases
    case here
    then show ?thesis by (simp add: nth_append)
  next
    case later
    from Cons.IH[OF this] show ?thesis by (simp add: nth_append)
  qed
qed

lemma find_by_mrn_Some:
  assumes "msg_thr_find_by_mrn ml m = Inr (Some i)"
  shows "i < length (thr ml) \<and> status (thr ml ! i) \<noteq> CPDLC_MSG_THR_CLOSED \<and>
         bucket_scan m (rev (buckets (thr ml ! i))) = Inr True"
proof -
  from assms have "thr_scan m (rev (thr ml)) = Inr (Some i)"
    by (simp add: msg_thr_find_by_mrn_def split: if_splits)
  from thr_scan_Some[OF this] show ?thesis by simp
qed

text \<open>The state after the bucket of a received message was appended, before the status is recomputed.\<close>

lemma recv_one_cases:
  assumes "recv_one ex ml m = Inr (ml', tid)"
  obtains (old) i where "msg_thr_find_by_mrn ml m = Inr (Some i)"
      "thr_status_upd ex (ml\<lparr>thr := (thr ml)[i := (thr ml ! i)\<lparr>dirty := True,
          buckets := buckets (thr ml ! i) @
            [\<lparr>msg = m, tok = CPDLC_INVALID_MSG_TOKEN, sent = False, hours = get_hours ex,
              mins = get_mins ex, time = stamp ex\<rparr>]\<rparr>]\<rparr>) i = Inr ml'"
  | (new) "msg_thr_find_by_mrn ml m = Inr None"
      "thr_status_upd ex (ml\<lparr>next_thr_id := next_thr_id ml + 1,
          thr := \<lparr>thr_id = next_thr_id ml, status = calloc_status,
          buckets = [\<lparr>msg = m, tok = CPDLC_INVALID_MSG_TOKEN, sent = False, hours = get_hours ex,
              mins = get_mins ex, time = stamp ex\<rparr>], dirty = True\<rparr> # thr ml\<rparr>) 0 = Inr ml'"
proof -
  from assms obtain r where r: "msg_thr_find_by_mrn ml m = Inr r"
    by (auto simp: recv_one_def bnd_Inr_iff)
  show ?thesis
  proof (cases r)
    case None
    with assms r show ?thesis
      by (intro new) (auto simp: recv_one_def bnd_Inr_iff find_msg_thr_new Let_def)
  next
    case (Some i)
    with assms r show ?thesis
      by (intro old[of i]) (auto simp: recv_one_def bnd_Inr_iff Let_def)
  qed
qed

lemma recv_one_rel:
  assumes ok: "thr_rel_ok R" and r: "recv_one ex ml m = Inr (ml', tid)"
  shows "suffix_rel R (thr ml) (thr ml')"
  using r
proof (cases rule: recv_one_cases)
  case (old i)
  from find_by_mrn_Some[OF old(1)] have i: "i < length (thr ml)"
    "status (thr ml ! i) \<noteq> CPDLC_MSG_THR_CLOSED" by simp_all
  have "suffix_rel R (thr ml) ((thr ml)[i := (thr ml ! i)\<lparr>dirty := True,
          buckets := buckets (thr ml ! i) @
            [\<lparr>msg = m, tok = CPDLC_INVALID_MSG_TOKEN, sent = False, hours = get_hours ex,
              mins = get_mins ex, time = stamp ex\<rparr>]\<rparr>])"
    by (rule suffix_rel_update) (rule thr_rel_okD(1)[OF ok], rule thr_rel_okD(4)[OF ok i(2)])
  moreover from thr_status_upd_rel[OF ok old(2)]
  have "suffix_rel R ((thr ml)[i := (thr ml ! i)\<lparr>dirty := True,
          buckets := buckets (thr ml ! i) @
            [\<lparr>msg = m, tok = CPDLC_INVALID_MSG_TOKEN, sent = False, hours = get_hours ex,
              mins = get_mins ex, time = stamp ex\<rparr>]\<rparr>]) (thr ml')" by simp
  ultimately show ?thesis by (rule suffix_rel_trans_ok[OF ok])
next
  case new
  have "suffix_rel R (thr ml) (\<lparr>thr_id = next_thr_id ml, status = calloc_status,
          buckets = [\<lparr>msg = m, tok = CPDLC_INVALID_MSG_TOKEN, sent = False, hours = get_hours ex,
              mins = get_mins ex, time = stamp ex\<rparr>], dirty = True\<rparr> # thr ml)"
    by (rule suffix_rel_Cons) (rule suffix_rel_refl_ok[OF ok])
  moreover from thr_status_upd_rel[OF ok new(2)]
  have "suffix_rel R (\<lparr>thr_id = next_thr_id ml, status = calloc_status,
          buckets = [\<lparr>msg = m, tok = CPDLC_INVALID_MSG_TOKEN, sent = False, hours = get_hours ex,
              mins = get_mins ex, time = stamp ex\<rparr>], dirty = True\<rparr> # thr ml) (thr ml')" by simp
  ultimately show ?thesis by (rule suffix_rel_trans_ok[OF ok])
qed

lemma recv_loop_rel:
  assumes ok: "thr_rel_ok R"
  shows "recv_loop ex ml msgs upd = Inr (ml', upd') \<Longrightarrow> suffix_rel R (thr ml) (thr ml')"
proof (induction msgs arbitrary: ml upd)
  case Nil
  then show ?case by (simp add: suffix_rel_refl_ok[OF ok])
next
  case (Cons m ms)
  from Cons.prems obtain ml1 tid where 1: "recv_one ex ml m = Inr (ml1, tid)"
    and 2: "recv_loop ex ml1 ms (if update_cb ml then upd @ [tid] else upd) = Inr (ml', upd')"
    by (auto simp: bnd_Inr_iff)
  from recv_one_rel[OF ok 1] Cons.IH[OF 2] show ?case by (rule suffix_rel_trans_ok[OF ok])
qed

lemma msg_recv_cb_rel:
  "thr_rel_ok R \<Longrightarrow> msg_recv_cb ex ml msgs = Inr (ml', upd') \<Longrightarrow> suffix_rel R (thr ml) (thr ml')"
  unfolding msg_recv_cb_def by (rule recv_loop_rel)

subsection \<open>The other operations\<close>

lemma upd_loop_rel:
  assumes ok: "thr_rel_ok R"
  shows "upd_loop ex ml k = Inr ml' \<Longrightarrow> suffix_rel R (thr ml) (thr ml')"
proof (induction k arbitrary: ml)
  case 0
  then show ?case by (simp add: suffix_rel_refl_ok[OF ok])
next
  case (Suc k)
  from Suc.prems obtain ml1 where 1: "thr_status_upd ex ml (length (thr ml) - Suc k) = Inr ml1"
    and 2: "upd_loop ex ml1 k = Inr ml'"
    by (auto simp: bnd_Inr_iff)
  from thr_status_upd_rel[OF ok 1] Suc.IH[OF 2] show ?case by (rule suffix_rel_trans_ok[OF ok])
qed

lemma update_rel:
  "thr_rel_ok R \<Longrightarrow> cpdlc_msglist_update ex ml = Inr ml' \<Longrightarrow> suffix_rel R (thr ml) (thr ml')"
  unfolding cpdlc_msglist_update_def by (rule upd_loop_rel)

lemma send_rel:
  assumes ok: "thr_rel_ok R" and s: "cpdlc_msglist_send ex ml m tid = Inr (ml', tid')"
  shows "suffix_rel R (thr ml) (thr ml')"
proof -
  from s obtain ml1 i where 1: "msglist_send_impl ex ml m tid = Inr (ml1, i)"
    and 2: "thr_status_upd ex ml1 i = Inr ml'"
    by (auto simp: cpdlc_msglist_send_def bnd_Inr_iff Let_def)
  from send_impl_rel[OF ok 1] thr_status_upd_rel[OF ok 2] show ?thesis
    by (rule suffix_rel_trans_ok[OF ok])
qed

lemma thr_close_cases:
  assumes "cpdlc_msglist_thr_close ml tid = Inr ml'"
  obtains i where "tid \<noteq> CPDLC_NO_MSG_THR_ID" "find_idx tid (thr ml) = Some i"
    "ml' = (if thr_status_is_final (status (thr ml ! i)) then ml
            else set_status ml i CPDLC_MSG_THR_CLOSED)"
  using assms
  by (cases "find_idx tid (thr ml)")
     (auto simp: cpdlc_msglist_thr_close_def find_msg_thr_def split: if_splits)

lemma thr_close_rel:
  assumes ok: "thr_rel_ok R" and c: "cpdlc_msglist_thr_close ml tid = Inr ml'"
  shows "suffix_rel R (thr ml) (thr ml')"
  using c
proof (cases rule: thr_close_cases)
  case (1 i)
  show ?thesis
  proof (cases "thr_status_is_final (status (thr ml ! i))")
    case True
    with 1 show ?thesis by (simp add: suffix_rel_refl_ok[OF ok])
  next
    case False
    have "suffix_rel R (thr ml) ((thr ml)[i := (thr ml ! i)\<lparr>status := CPDLC_MSG_THR_CLOSED\<rparr>])"
      by (rule suffix_rel_update) (rule thr_rel_okD(1)[OF ok], rule thr_rel_okD(3)[OF ok False])
    with 1 False show ?thesis by (simp add: set_status_def)
  qed
qed

lemma mark_seen_final_kept:
  assumes "cpdlc_msglist_thr_mark_seen ml tid = Inr ml'"
  shows "final_kept (thr ml) (thr ml')"
proof -
  from assms obtain i where "ml' = ml\<lparr>thr := (thr ml)[i := (thr ml ! i)\<lparr>dirty := False\<rparr>]\<rparr>"
    by (cases "find_idx tid (thr ml)")
       (auto simp: cpdlc_msglist_thr_mark_seen_def find_msg_thr_def split: if_splits)
  moreover have "suffix_rel status_kept (thr ml) ((thr ml)[i := (thr ml ! i)\<lparr>dirty := False\<rparr>])"
    by (rule suffix_rel_update) (simp_all add: status_kept_def)
  ultimately show ?thesis by (simp add: final_kept_def)
qed

lemma engine_step_final_kept:
  assumes "engine_step ml c = Inr ml'" "\<not> is_remove c"
  shows "final_kept (thr ml) (thr ml')"
proof (cases c)
  case (Send ex m tid)
  with assms obtain tid' where "cpdlc_msglist_send ex ml m tid = Inr (ml', tid')"
    by (auto simp: bnd_Inr_iff)
  from send_rel[OF status_kept_ok this] show ?thesis by (simp add: final_kept_def)
next
  case (Recv ex msgs)
  with assms obtain u where "msg_recv_cb ex ml msgs = Inr (ml', u)"
    by (auto simp: bnd_Inr_iff)
  from msg_recv_cb_rel[OF status_kept_ok this] show ?thesis by (simp add: final_kept_def)
next
  case (Update ex)
  with assms have "cpdlc_msglist_update ex ml = Inr ml'" by simp
  from update_rel[OF status_kept_ok this] show ?thesis by (simp add: final_kept_def)
next
  case (Thr_close tid)
  with assms have "cpdlc_msglist_thr_close ml tid = Inr ml'" by simp
  from thr_close_rel[OF status_kept_ok this] show ?thesis by (simp add: final_kept_def)
next
  case (Remove_thr tid)
  with assms show ?thesis by simp
next
  case (Mark_seen tid)
  with assms have "cpdlc_msglist_thr_mark_seen ml tid = Inr ml'" by simp
  then show ?thesis by (rule mark_seen_final_kept)
next
  case (Set_update_cb cb)
  with assms have "thr ml' = thr ml" by (auto simp: cpdlc_msglist_set_update_cb_def)
  then show ?thesis by (simp add: final_kept_def suffix_rel_refl_ok[OF status_kept_ok])
qed

lemma engine_run_final_kept:
  "engine_run ml cs = Inr ml' \<Longrightarrow> list_all (\<lambda>c. \<not> is_remove c) cs \<Longrightarrow> final_kept (thr ml) (thr ml')"
proof (induction cs arbitrary: ml)
  case Nil
  then show ?case by (simp add: final_kept_def suffix_rel_refl_ok[OF status_kept_ok])
next
  case (Cons c cs)
  from Cons.prems obtain ml1 where 1: "engine_step ml c = Inr ml1" and 2: "engine_run ml1 cs = Inr ml'"
    by (auto simp: bnd_Inr_iff)
  from Cons.prems have 3: "\<not> is_remove c" "list_all (\<lambda>c. \<not> is_remove c) cs" by simp_all
  from engine_step_final_kept[OF 1 3(1)] Cons.IH[OF 2 3(2)] show ?case
    unfolding final_kept_def by (rule suffix_rel_trans_ok[OF status_kept_ok])
qed


lemmas msg_defs =
  cpdlc_msg_alloc_def cpdlc_msg_get_min_def cpdlc_msg_get_mrn_def cpdlc_msg_set_min_def
  cpdlc_msg_set_mrn_def cpdlc_msg_get_dl_def cpdlc_msg_get_num_segs_def cpdlc_msg_add_seg_def
  set_arg_def cpdlc_msg_seg_set_arg_def

lemmas type_defs =
  CPDLC_DM0_WILCO_def CPDLC_DM1_UNABLE_def CPDLC_DM2_STANDBY_def CPDLC_DM3_ROGER_def
  CPDLC_DM4_AFFIRM_def CPDLC_DM5_NEGATIVE_def CPDLC_DM6_REQ_alt_def
  CPDLC_DM27_REQ_WX_DEVIATION_UP_TO_dir_dist_OF_ROUTE_def CPDLC_DM49_WHEN_CAN_WE_EXPCT_spd_def
  CPDLC_DM54_WHEN_CAN_WE_EXPECT_CRZ_CLB_TO_alt_def CPDLC_DM62_ERROR_errorinfo_def
  CPDLC_DM70_REQ_HDG_deg_def CPDLC_DM71_REQ_GND_TRK_deg_def CPDLC_UM0_UNABLE_def
  CPDLC_UM1_STANDBY_def CPDLC_UM3_ROGER_def CPDLC_UM4_AFFIRM_def CPDLC_UM5_NEGATIVE_def
  CPDLC_UM159_ERROR_description_def CPDLC_UM160_NEXT_DATA_AUTHORITY_id_def
  CPDLC_UM161_END_SVC_def CPDLC_UM168_DISREGARD_def UINT32_MAX_def
  CPDLC_INVALID_MSG_SEQ_NR_def CPDLC_NO_MSG_THR_ID_def

lemmas pred_defs =
  seg0_def msg_is_dl_req_def msg_dl_req_resp_def msg_is_ul_req_def msg_is_stby_def
  msg_is_accept_def msg_is_reject_def is_error_msg_def msg_is_rgr_def msg_is_link_mgmt_def
  is_disregard_msg_def thr_status_is_final_def

lemmas engine_defs =
  thr_get_timeout_def find_msg_thr_def assign_mrn_def sent_bucket_def msglist_send_impl_def
  set_status_def timedout_msg_def thr_status_branch_def thr_status_upd_def
  msg_matches_bucket_def msg_thr_find_by_mrn_def recv_one_def msg_recv_cb_def
  cpdlc_msglist_alloc_def cpdlc_msglist_update_def cpdlc_msglist_send_def
  cpdlc_msglist_get_thr_ids_def cpdlc_msglist_get_thr_status_def
  cpdlc_msglist_thr_mark_seen_def cpdlc_msglist_get_thr_msg_count_def
  cpdlc_msglist_remove_thr_def cpdlc_msglist_thr_is_done_def cpdlc_msglist_thr_close_def
  cpdlc_msglist_set_update_cb_def calloc_status_def

lemmas example_defs =
  one_seg_msg_def world_def um20_climb_def dm0_wilco_def um169_reply_def

lemmas rel_defs =
  suffix_rel_def status_kept_def final_kept_def closed_same_def closed_kept_def thr_nonempty_def

text \<open>
  C2. A thread whose status is final keeps it: the status recomputation returns the engine
  as it is, so does \<open>thr_close\<close>, and after any run of calls that removes no thread every
  thread that was final has the status it had (threads are matched by their distance from
  the tail of the list, since new ones are put at the head).
\<close>

theorem final_status_is_kept:
  "(i < length (thr ml) \<longrightarrow> thr_status_is_final (status (thr ml ! i)) \<longrightarrow>
      thr_status_upd ex ml i = Inr ml) \<and>
   (tid \<noteq> CPDLC_NO_MSG_THR_ID \<longrightarrow> find_idx tid (thr ml) = Some j \<longrightarrow>
      thr_status_is_final (status (thr ml ! j)) \<longrightarrow> cpdlc_msglist_thr_close ml tid = Inr ml) \<and>
   (engine_run ml cs = Inr ml' \<longrightarrow> list_all (\<lambda>c. \<not> is_remove c) cs \<longrightarrow>
      final_kept (thr ml) (thr ml'))"
  by (intro conjI impI thr_status_upd_final thr_close_final engine_run_final_kept)

lemma ml_accepted_reached:
  "engine_run cpdlc_msglist_alloc [Recv (world 0) [um20_climb], Send (world 10) dm0_wilco 0]
     = Inr ml_accepted"
  by (simp add: ml_accepted_def engine_defs example_defs pred_defs msg_defs type_defs Let_def)

lemma run_after_accept:
  "\<exists>ml'. engine_run ml_accepted calls_after_accept = Inr ml'
     \<and> map status (thr ml') = [CPDLC_MSG_THR_CLOSED, CPDLC_MSG_THR_ACCEPTED]"
  by (simp add: ml_accepted_def calls_after_accept_def engine_defs example_defs pred_defs msg_defs type_defs Let_def)

theorem final_status_is_kept_witness:
  "thr_status_upd (world 30) ml_accepted 0 = Inr ml_accepted \<and>
   cpdlc_msglist_thr_close ml_accepted 0 = Inr ml_accepted \<and>
   (\<exists>ml'. engine_run ml_accepted calls_after_accept = Inr ml' \<and>
      final_kept (thr ml_accepted) (thr ml'))"
proof -
  obtain ml' where r: "engine_run ml_accepted calls_after_accept = Inr ml'"
    using run_after_accept by blast
  have 1: "0 < length (thr ml_accepted)"
    "thr_status_is_final (status (thr ml_accepted ! 0))"
    "(0 :: 32 word) \<noteq> CPDLC_NO_MSG_THR_ID" "find_idx 0 (thr ml_accepted) = Some 0"
    "list_all (\<lambda>c. \<not> is_remove c) calls_after_accept"
    by (simp_all add: ml_accepted_def thr_status_is_final_def CPDLC_NO_MSG_THR_ID_def
        calls_after_accept_def)
  from final_status_is_kept[of 0 ml_accepted "world 30" 0 0 calls_after_accept ml'] r 1
  show ?thesis by blast
qed


subsection \<open>Which aborts can happen\<close>

lemma bnd_Inl_iff: "bnd r f = Inl e \<longleftrightarrow> (r = Inl e \<or> (\<exists>v. r = Inr v \<and> f v = Inl e))"
  by (cases r) (simp_all add: bnd_def)

lemma only_assert_Inr [simp]: "only_assert (Inr x)"
  by (simp add: only_assert_def)

lemma only_assert_AssertFail [simp]: "only_assert (Inl AssertFail)"
  by (simp add: only_assert_def)

lemma only_assert_bnd: "only_assert r \<Longrightarrow> (\<And>v. only_assert (f v)) \<Longrightarrow> only_assert (bnd r f)"
  by (auto simp: only_assert_def bnd_Inl_iff)

lemma only_assert_if: "only_assert a \<Longrightarrow> only_assert b \<Longrightarrow> only_assert (if c then a else b)"
  by simp

lemma only_assert_seg0: "only_assert (seg0 m)"
  by (simp add: seg0_def split: list.splits)

lemma only_assert_preds:
  "only_assert (msg_is_dl_req m)" "only_assert (msg_dl_req_resp m)"
  "only_assert (msg_is_ul_req m)" "only_assert (msg_is_stby m)"
  "only_assert (msg_is_accept m)" "only_assert (msg_is_reject m)"
  "only_assert (is_error_msg m)" "only_assert (msg_is_rgr m)"
  "only_assert (msg_is_link_mgmt m)" "only_assert (is_disregard_msg m)"
  unfolding msg_is_dl_req_def msg_dl_req_resp_def msg_is_ul_req_def msg_is_stby_def
    msg_is_accept_def msg_is_reject_def is_error_msg_def msg_is_rgr_def msg_is_link_mgmt_def
    is_disregard_msg_def
  by (intro only_assert_bnd only_assert_seg0 only_assert_if only_assert_Inr only_assert_AssertFail)+

lemma thr_status_branch_only_assert:
  assumes "buckets t \<noteq> []"
  shows "only_assert (thr_status_branch ex t)"
proof -
  from assms obtain b bs where eq: "buckets t = b # bs" by (cases "buckets t") auto
  show ?thesis
    unfolding thr_status_branch_def Let_def
    by (simp only: eq list.case)
       (intro only_assert_bnd only_assert_if only_assert_preds only_assert_Inr)
qed

lemma send_impl_no_null: "msglist_send_impl ex ml m tid \<noteq> Inl NullDeref"
  by (auto simp: msglist_send_impl_def find_msg_thr_def bnd_Inl_iff Let_def split: option.splits)

lemma thr_status_upd_no_null:
  assumes "i < length (thr ml)" "buckets (thr ml ! i) \<noteq> []"
  shows "thr_status_upd ex ml i \<noteq> Inl NullDeref"
proof
  assume a: "thr_status_upd ex ml i = Inl NullDeref"
  from thr_status_branch_only_assert[OF assms(2), of ex]
  have b: "thr_status_branch ex (thr ml ! i) \<noteq> Inl NullDeref"
    by (auto simp: only_assert_def)
  show False
  proof (cases "thr_status_branch ex (thr ml ! i)")
    case (Inl e)
    with a assms(1) b show False
      by (auto simp: thr_status_upd_def Let_def split: if_splits)
  next
    case (Inr v)
    with a assms(1) show False
      by (cases v)
         (auto simp: thr_status_upd_def Let_def bnd_Inl_iff send_impl_no_null
           split: if_splits)
  qed
qed

subsection \<open>Every thread has a bucket\<close>

lemma thr_nonempty_nth: "thr_nonempty ml \<Longrightarrow> i < length (thr ml) \<Longrightarrow> buckets (thr ml ! i) \<noteq> []"
  by (simp add: thr_nonempty_def list_all_length)

lemma thr_nonempty_update:
  assumes "thr_nonempty ml" "i < length (thr ml) \<Longrightarrow> buckets x \<noteq> []" "thr ml' = (thr ml)[i := x]"
  shows "thr_nonempty ml'"
  unfolding thr_nonempty_def list_all_length
proof (intro allI impI)
  fix n assume n: "n < length (thr ml')"
  show "buckets (thr ml' ! n) \<noteq> []"
  proof (cases "n = i")
    case True
    with n assms(2,3) show ?thesis by simp
  next
    case False
    with n assms(1,3) show ?thesis by (simp add: thr_nonempty_def list_all_length)
  qed
qed

lemma thr_nonempty_Cons:
  "thr_nonempty ml \<Longrightarrow> buckets x \<noteq> [] \<Longrightarrow> thr ml' = x # thr ml \<Longrightarrow> thr_nonempty ml'"
  by (simp add: thr_nonempty_def)

lemma set_status_nonempty: "thr_nonempty ml \<Longrightarrow> thr_nonempty (set_status ml i s)"
  by (rule thr_nonempty_update[where i=i and x="(thr ml ! i)\<lparr>status := s\<rparr>"])
     (auto simp: set_status_def dest: thr_nonempty_nth)

lemma send_impl_nonempty:
  assumes "thr_nonempty ml" "msglist_send_impl ex ml m tid = Inr (ml1, j)"
  shows "thr_nonempty ml1 \<and> j < length (thr ml1)"
proof (cases "tid = CPDLC_NO_MSG_THR_ID")
  case True
  with assms(2) have "thr ml1 = \<lparr>thr_id = next_thr_id ml, status = CPDLC_MSG_THR_OPEN,
      buckets = [sent_bucket ex (msglist_min ml) [] m], dirty = False\<rparr> # thr ml" "j = 0"
    by (auto simp: send_impl_new)
  with assms(1) show ?thesis by (simp add: thr_nonempty_def)
next
  case False
  with assms(2) obtain j' where j: "find_idx tid (thr ml) = Some j'" "j = j'"
      "thr ml1 = (thr ml)[j' := (thr ml ! j')\<lparr>buckets := buckets (thr ml ! j') @
                     [sent_bucket ex (msglist_min ml) (buckets (thr ml ! j')) m]\<rparr>]"
    by (auto simp: send_impl_old)
  from find_idx_Some[OF j(1)] j(2,3) have "j < length (thr ml1)" by simp
  moreover have "thr_nonempty ml1"
    by (rule thr_nonempty_update[OF assms(1) _ j(3)]) simp
  ultimately show ?thesis by simp
qed

lemma thr_status_upd_nonempty:
  assumes n: "thr_nonempty ml" and u: "thr_status_upd ex ml i = Inr ml'"
  shows "thr_nonempty ml'"
proof -
  note c = thr_status_upd_cases[OF u]
  then have i: "i < length (thr ml)" by simp
  from c consider (same) "ml' = ml"
    | (set) s where "ml' = set_status ml i s"
    | (tmo) ml1 j where
        "msglist_send_impl ex ml (timedout_msg ex (last (buckets (thr ml ! i)))) (thr_id (thr ml ! i)) = Inr (ml1, j)"
        "ml' = set_status ml1 (i + (length (thr ml1) - length (thr ml))) CPDLC_MSG_THR_TIMEDOUT"
    | (ended)
        "ml' = ml\<lparr>thr := (thr ml)[i := (thr ml ! i)\<lparr>dirty := False, status := CPDLC_MSG_THR_CONN_ENDED\<rparr>]\<rparr>"
    by blast
  then show ?thesis
  proof cases
    case same
    with n show ?thesis by simp
  next
    case (set s)
    with n show ?thesis by (simp add: set_status_nonempty)
  next
    case (tmo ml1 j)
    from send_impl_nonempty[OF n tmo(1)] tmo(2) show ?thesis by (simp add: set_status_nonempty)
  next
    case ended
    show ?thesis
      by (rule thr_nonempty_update[OF n, where i=i and
            x="(thr ml ! i)\<lparr>dirty := False, status := CPDLC_MSG_THR_CONN_ENDED\<rparr>"])
         (use ended thr_nonempty_nth[OF n] in auto)
  qed
qed


lemma only_assert_no_null: "only_assert r \<Longrightarrow> r \<noteq> Inl NullDeref"
  by (auto simp: only_assert_def)

lemma only_assert_bucket_scan: "only_assert (bucket_scan m bs)"
proof (induction bs)
  case Nil
  show ?case by simp
next
  case (Cons b bs)
  have "only_assert (msg_matches_bucket m b)"
    unfolding msg_matches_bucket_def Let_def
    by (intro only_assert_bnd only_assert_seg0 only_assert_preds only_assert_if only_assert_Inr)
  with Cons show ?case by (auto intro!: only_assert_bnd)
qed

lemma only_assert_thr_scan: "only_assert (thr_scan m ts)"
  by (induction ts) (auto intro!: only_assert_bnd only_assert_bucket_scan)

lemma only_assert_find_by_mrn: "only_assert (msg_thr_find_by_mrn ml m)"
  by (simp add: msg_thr_find_by_mrn_def only_assert_thr_scan)

lemma recv_one_nonempty:
  assumes n: "thr_nonempty ml" and r: "recv_one ex ml m = Inr (ml', tid)"
  shows "thr_nonempty ml'"
  using r
proof (cases rule: recv_one_cases)
  case (old i)
  show ?thesis
    by (rule thr_status_upd_nonempty[OF _ old(2)])
       (rule thr_nonempty_update[OF n, where i=i], simp_all)
next
  case new
  show ?thesis
    by (rule thr_status_upd_nonempty[OF _ new(2)]) (use n in \<open>simp add: thr_nonempty_def\<close>)
qed

lemma recv_one_no_null:
  assumes n: "thr_nonempty ml"
  shows "recv_one ex ml m \<noteq> Inl NullDeref"
proof
  assume a: "recv_one ex ml m = Inl NullDeref"
  note f = only_assert_no_null[OF only_assert_find_by_mrn, of ml m]
  show False
  proof (cases "msg_thr_find_by_mrn ml m")
    case (Inl e)
    with a f show False by (simp add: recv_one_def)
  next
    case (Inr r)
    show False
    proof (cases r)
      case None
      with a Inr have "thr_status_upd ex (ml\<lparr>next_thr_id := next_thr_id ml + 1,
          thr := \<lparr>thr_id = next_thr_id ml, status = calloc_status,
          buckets = [\<lparr>msg = m, tok = CPDLC_INVALID_MSG_TOKEN, sent = False, hours = get_hours ex,
              mins = get_mins ex, time = stamp ex\<rparr>], dirty = True\<rparr> # thr ml\<rparr>) 0 = Inl NullDeref"
        by (auto simp: recv_one_def find_msg_thr_new Let_def bnd_Inl_iff)
      moreover have "thr_status_upd ex (ml\<lparr>next_thr_id := next_thr_id ml + 1,
          thr := \<lparr>thr_id = next_thr_id ml, status = calloc_status,
          buckets = [\<lparr>msg = m, tok = CPDLC_INVALID_MSG_TOKEN, sent = False, hours = get_hours ex,
              mins = get_mins ex, time = stamp ex\<rparr>], dirty = True\<rparr> # thr ml\<rparr>) 0 \<noteq> Inl NullDeref"
        by (rule thr_status_upd_no_null) simp_all
      ultimately show False by simp
    next
      case (Some i)
      with Inr have i: "i < length (thr ml)" by (auto dest: find_by_mrn_Some)
      from a Inr Some have "thr_status_upd ex (ml\<lparr>thr := (thr ml)[i := (thr ml ! i)\<lparr>dirty := True,
          buckets := buckets (thr ml ! i) @
            [\<lparr>msg = m, tok = CPDLC_INVALID_MSG_TOKEN, sent = False, hours = get_hours ex,
              mins = get_mins ex, time = stamp ex\<rparr>]\<rparr>]\<rparr>) i = Inl NullDeref"
        by (auto simp: recv_one_def Let_def bnd_Inl_iff)
      moreover have "thr_status_upd ex (ml\<lparr>thr := (thr ml)[i := (thr ml ! i)\<lparr>dirty := True,
          buckets := buckets (thr ml ! i) @
            [\<lparr>msg = m, tok = CPDLC_INVALID_MSG_TOKEN, sent = False, hours = get_hours ex,
              mins = get_mins ex, time = stamp ex\<rparr>]\<rparr>]\<rparr>) i \<noteq> Inl NullDeref"
        by (rule thr_status_upd_no_null) (use i in simp_all)
      ultimately show False by simp
    qed
  qed
qed

lemma recv_loop_nonempty:
  "thr_nonempty ml \<Longrightarrow>
     recv_loop ex ml msgs upd \<noteq> Inl NullDeref \<and>
     (\<forall>ml' upd'. recv_loop ex ml msgs upd = Inr (ml', upd') \<longrightarrow> thr_nonempty ml')"
proof (induction msgs arbitrary: ml upd)
  case Nil
  then show ?case by simp
next
  case (Cons m ms)
  show ?case
  proof (cases "recv_one ex ml m")
    case (Inl e)
    with recv_one_no_null[OF Cons.prems, of ex m] show ?thesis by simp
  next
    case (Inr r)
    obtain ml1 tid where r: "r = (ml1, tid)" by (cases r)
    from recv_one_nonempty[OF Cons.prems] Inr r have "thr_nonempty ml1" by simp
    from Cons.IH[OF this] Inr r show ?thesis by simp
  qed
qed

lemma upd_loop_nonempty:
  "thr_nonempty ml \<Longrightarrow> k \<le> length (thr ml) \<Longrightarrow>
     upd_loop ex ml k \<noteq> Inl NullDeref \<and>
     (\<forall>ml'. upd_loop ex ml k = Inr ml' \<longrightarrow> thr_nonempty ml')"
proof (induction k arbitrary: ml)
  case 0
  then show ?case by simp
next
  case (Suc k)
  let ?i = "length (thr ml) - Suc k"
  from Suc.prems have i: "?i < length (thr ml)" by simp
  show ?case
  proof (cases "thr_status_upd ex ml ?i")
    case (Inl e)
    with thr_status_upd_no_null[OF i thr_nonempty_nth[OF Suc.prems(1) i], of ex]
    show ?thesis by simp
  next
    case (Inr ml1)
    from thr_status_upd_nonempty[OF Suc.prems(1) Inr] have n1: "thr_nonempty ml1" .
    from thr_status_upd_rel[OF status_kept_ok Inr] have "length (thr ml) \<le> length (thr ml1)"
      by (rule suffix_rel_length)
    with Suc.prems have "k \<le> length (thr ml1)" by simp
    from Suc.IH[OF n1 this] Inr show ?thesis by simp
  qed
qed

lemma find_msg_thr_no_null: "find_msg_thr ml tid \<noteq> Inl NullDeref"
  by (simp add: find_msg_thr_def split: option.splits)

lemma find_msg_thr_old_Inr:
  "tid \<noteq> CPDLC_NO_MSG_THR_ID \<Longrightarrow> find_msg_thr ml tid = Inr (ml1, i) \<Longrightarrow>
     ml1 = ml \<and> find_idx tid (thr ml) = Some i \<and> i < length (thr ml)"
  by (auto simp: find_msg_thr_def split: option.splits dest: find_idx_Some)

lemma engine_step_nonempty:
  assumes n: "thr_nonempty ml"
  shows "engine_step ml c \<noteq> Inl NullDeref \<and> (\<forall>ml'. engine_step ml c = Inr ml' \<longrightarrow> thr_nonempty ml')"
proof (cases c)
  case (Send ex m tid)
  show ?thesis
  proof (cases "msglist_send_impl ex ml m tid")
    case (Inl e)
    with send_impl_no_null[of ex ml m tid] Send show ?thesis
      by (simp add: cpdlc_msglist_send_def)
  next
    case (Inr r)
    obtain ml1 j where r: "r = (ml1, j)" by (cases r)
    from send_impl_nonempty[OF n] Inr r have 1: "thr_nonempty ml1" "j < length (thr ml1)" by simp_all
    from thr_status_upd_no_null[OF 1(2) thr_nonempty_nth[OF 1], of ex]
      thr_status_upd_nonempty[OF 1(1), of ex j]
    show ?thesis using Send Inr r
      by (auto simp: cpdlc_msglist_send_def Let_def bnd_Inl_iff bnd_Inr_iff)
  qed
next
  case (Recv ex msgs)
  from recv_loop_nonempty[OF n, of ex msgs "[]"] show ?thesis using Recv
    by (auto simp: msg_recv_cb_def bnd_Inl_iff bnd_Inr_iff)
next
  case (Update ex)
  from upd_loop_nonempty[OF n, of "length (thr ml)" ex] show ?thesis using Update
    by (simp add: cpdlc_msglist_update_def)
next
  case (Thr_close tid)
  have "cpdlc_msglist_thr_close ml tid \<noteq> Inl NullDeref"
    by (auto simp: cpdlc_msglist_thr_close_def bnd_Inl_iff find_msg_thr_no_null)
  moreover have "thr_nonempty ml'" if "cpdlc_msglist_thr_close ml tid = Inr ml'" for ml'
    using that
  proof (cases rule: thr_close_cases)
    case (1 i)
    with n show ?thesis by (simp add: set_status_nonempty)
  qed
  ultimately show ?thesis using Thr_close by simp
next
  case (Remove_thr tid)
  have "cpdlc_msglist_remove_thr ml tid \<noteq> Inl NullDeref"
    by (auto simp: cpdlc_msglist_remove_thr_def bnd_Inl_iff find_msg_thr_no_null)
  moreover have "thr_nonempty ml'" if "cpdlc_msglist_remove_thr ml tid = Inr ml'" for ml'
  proof -
    from that obtain i where "thr ml' = take i (thr ml) @ drop (Suc i) (thr ml)"
      by (auto simp: cpdlc_msglist_remove_thr_def bnd_Inr_iff split: if_splits
          dest!: find_msg_thr_old_Inr)
    moreover have "set (take i (thr ml) @ drop (Suc i) (thr ml)) \<subseteq> set (thr ml)"
      by (auto dest: in_set_takeD in_set_dropD)
    ultimately show ?thesis using n by (auto simp: thr_nonempty_def list_all_iff)
  qed
  ultimately show ?thesis using Remove_thr by simp
next
  case (Mark_seen tid)
  have "cpdlc_msglist_thr_mark_seen ml tid \<noteq> Inl NullDeref"
    by (auto simp: cpdlc_msglist_thr_mark_seen_def bnd_Inl_iff find_msg_thr_no_null)
  moreover have "thr_nonempty ml'" if "cpdlc_msglist_thr_mark_seen ml tid = Inr ml'" for ml'
  proof -
    from that obtain i where i: "thr ml' = (thr ml)[i := (thr ml ! i)\<lparr>dirty := False\<rparr>]"
      by (auto simp: cpdlc_msglist_thr_mark_seen_def bnd_Inr_iff split: if_splits
          dest!: find_msg_thr_old_Inr)
    show ?thesis
      by (rule thr_nonempty_update[OF n _ i]) (simp add: thr_nonempty_nth[OF n])
  qed
  ultimately show ?thesis using Mark_seen by simp
next
  case (Set_update_cb cb)
  with n show ?thesis by (simp add: cpdlc_msglist_set_update_cb_def thr_nonempty_def)
qed

lemma engine_run_nonempty:
  "thr_nonempty ml \<Longrightarrow> engine_run ml cs = Inr ml' \<Longrightarrow> thr_nonempty ml'"
proof (induction cs arbitrary: ml)
  case Nil
  then show ?case by simp
next
  case (Cons c cs)
  from Cons.prems(2) obtain ml1 where 1: "engine_step ml c = Inr ml1" and 2: "engine_run ml1 cs = Inr ml'"
    by (auto simp: bnd_Inr_iff)
  from engine_step_nonempty[OF Cons.prems(1), of c] 1 have "thr_nonempty ml1" by simp
  from Cons.IH[OF this 2] show ?case .
qed

lemma engine_run_no_null:
  "thr_nonempty ml \<Longrightarrow> engine_run ml cs \<noteq> Inl NullDeref"
proof (induction cs arbitrary: ml)
  case Nil
  then show ?case by simp
next
  case (Cons c cs)
  show ?case
  proof (cases "engine_step ml c")
    case (Inl e)
    with engine_step_nonempty[OF Cons.prems, of c] show ?thesis by simp
  next
    case (Inr ml1)
    with engine_step_nonempty[OF Cons.prems, of c] have "thr_nonempty ml1" by simp
    from Cons.IH[OF this] Inr show ?thesis by simp
  qed
qed

lemma alloc_nonempty: "thr_nonempty cpdlc_msglist_alloc"
  by (simp add: thr_nonempty_def cpdlc_msglist_alloc_def)

text \<open>
  C10. In every state the engine reaches from \<open>cpdlc_msglist_alloc\<close> through calls of the
  public operations, every thread has a bucket; in such a state the status recomputation
  of any thread does not read through a null bucket pointer, and no further run of calls
  does (inside an operation the recomputation runs on states in between).
\<close>

theorem threads_never_empty:
  "engine_run cpdlc_msglist_alloc cs = Inr ml \<longrightarrow>
     thr_nonempty ml \<and>
     (i < length (thr ml) \<longrightarrow> thr_status_upd ex ml i \<noteq> Inl NullDeref) \<and>
     engine_run ml cs' \<noteq> Inl NullDeref"
proof
  assume "engine_run cpdlc_msglist_alloc cs = Inr ml"
  from engine_run_nonempty[OF alloc_nonempty this] have n: "thr_nonempty ml" .
  then show "thr_nonempty ml \<and>
     (i < length (thr ml) \<longrightarrow> thr_status_upd ex ml i \<noteq> Inl NullDeref) \<and>
     engine_run ml cs' \<noteq> Inl NullDeref"
    using thr_status_upd_no_null[of i ml ex] thr_nonempty_nth[of ml i]
      engine_run_no_null[of ml cs'] by blast
qed

theorem threads_never_empty_witness:
  "thr_nonempty ml_accepted \<and>
   thr_status_upd (world 30) ml_accepted 0 \<noteq> Inl NullDeref \<and>
   engine_run ml_accepted calls_after_accept \<noteq> Inl NullDeref"
proof -
  have "0 < length (thr ml_accepted)" by (simp add: ml_accepted_def)
  with threads_never_empty[of "[Recv (world 0) [um20_climb], Send (world 10) dm0_wilco 0]"
      ml_accepted 0 "world 30" calls_after_accept] ml_accepted_reached
  show ?thesis by blast
qed


lemmas example_defs2 = dm6_req_def ml_one_thread_def ml_two_threads_def

subsection \<open>Listing the thread ids\<close>

lemma get_thr_ids_loop_eq:
  "get_thr_ids_loop ign have_buf cap ts thr_i out =
     (if \<not> have_buf \<and> filter (listed ign) ts \<noteq> [] \<and> thr_i < cap then Inl AssertFail
      else Inr (thr_i + length (filter (listed ign) ts),
                out @ map thr_id (take (cap - thr_i) (filter (listed ign) ts))))"
proof (induction ts arbitrary: thr_i out)
  case Nil
  show ?case by simp
next
  case (Cons t ts)
  show ?case
  proof (cases "listed ign t")
    case False
    then have "get_thr_ids_loop ign have_buf cap (t # ts) thr_i out =
        get_thr_ids_loop ign have_buf cap ts thr_i out"
      by (simp add: listed_def)
    also note Cons.IH
    finally show ?thesis using False by simp
  next
    case True
    then have l: "\<not> (ign \<and> \<not> dirty t \<and> thr_status_is_final (status t))"
      by (simp add: listed_def)
    show ?thesis
    proof (cases "thr_i < cap")
      case lt: True
      then obtain d where d: "cap - thr_i = Suc d" "cap - Suc thr_i = d"
        by (cases "cap - thr_i") auto
      show ?thesis
      proof (cases have_buf)
        case False
        with lt True l show ?thesis by auto
      next
        case hb: True
        with l lt have "get_thr_ids_loop ign have_buf cap (t # ts) thr_i out =
            get_thr_ids_loop ign have_buf cap ts (Suc thr_i) (out @ [thr_id t])"
          by auto
        also note Cons.IH
        finally show ?thesis using True hb d by simp
      qed
    next
      case ge: False
      with l have "get_thr_ids_loop ign have_buf cap (t # ts) thr_i out =
            get_thr_ids_loop ign have_buf cap ts (Suc thr_i) out"
        by auto
      also note Cons.IH
      finally show ?thesis using True ge by simp
    qed
  qed
qed

text \<open>
  C8, as amended. With a buffer, \<open>cpdlc_msglist_get_thr_ids\<close> writes the ids of the listed
  threads in the order of the thread list, head first, at most \<open>cap\<close> of them, and returns
  how many it wrote; without a buffer and with \<open>cap\<close> 0 it returns how many there are.
  With \<open>ignore_closed\<close> the threads left out are exactly those that are final and not
  dirty. A new thread is put at the head of the list, so the order is the reverse of the
  order of creation.
\<close>

theorem get_thr_ids_newest_first:
  "cpdlc_msglist_get_thr_ids ml ign True cap =
     Inr (take cap (map thr_id (filter (listed ign) (thr ml))),
          min cap (length (filter (listed ign) (thr ml)))) \<and>
   cpdlc_msglist_get_thr_ids ml ign False 0 = Inr ([], length (filter (listed ign) (thr ml))) \<and>
   listed ign t = (\<not> (ign \<and> \<not> dirty t \<and> thr_status_is_final (status t))) \<and>
   (case find_msg_thr ml CPDLC_NO_MSG_THR_ID of
      Inr (ml1, i) \<Rightarrow> i = 0 \<and> map thr_id (thr ml1) = next_thr_id ml # map thr_id (thr ml)
    | Inl e \<Rightarrow> False)"
  by (simp add: cpdlc_msglist_get_thr_ids_def get_thr_ids_loop_eq take_map listed_def
      find_msg_thr_new)

theorem get_thr_ids_newest_first_witness:
  "cpdlc_msglist_get_thr_ids ml_two_threads False True 5 = Inr ([1, 0], 2) \<and>
   cpdlc_msglist_get_thr_ids ml_accepted True True 5 = Inr ([0], 1) \<and>
   cpdlc_msglist_get_thr_ids (ml_accepted\<lparr>thr := [hd (thr ml_accepted)\<lparr>dirty := False\<rparr>]\<rparr>)
     True True 5 = Inr ([], 0)"
  using get_thr_ids_newest_first[of ml_two_threads False 5]
    get_thr_ids_newest_first[of ml_accepted True 5]
    get_thr_ids_newest_first[of "ml_accepted\<lparr>thr := [hd (thr ml_accepted)\<lparr>dirty := False\<rparr>]\<rparr>" True 5]
  by (simp add: ml_two_threads_def ml_accepted_def listed_def thr_status_is_final_def)

text \<open>
  C8 as stated fails: thread 0 is created first and thread 1 second, and the ids are
  listed as 1, 0.
\<close>

theorem get_thr_ids_order_counterexample:
  "cpdlc_msglist_send (world 0) cpdlc_msglist_alloc dm6_req CPDLC_NO_MSG_THR_ID =
     Inr (ml_one_thread, 0) \<and>
   cpdlc_msglist_send (world 1) ml_one_thread dm6_req CPDLC_NO_MSG_THR_ID =
     Inr (ml_two_threads, 1) \<and>
   cpdlc_msglist_get_thr_ids ml_two_threads False True 2 = Inr ([1, 0], 2)"
  by (simp add: engine_defs example_defs example_defs2 pred_defs msg_defs type_defs Let_def)


subsection \<open>MRN and MIN of a sent message\<close>

lemma unat_succ:
  assumes "(c :: 32 word) \<noteq> UINT32_MAX"
  shows "unat (c + 1) = unat c + 1"
proof -
  have "unat c \<noteq> unat (0xFFFFFFFF :: 32 word)"
    using assms unfolding UINT32_MAX_def by (simp only: word_unat_eq_iff[symmetric] not_False_eq_True)
  moreover have "unat c < 2 ^ 32" using unsigned_less[of c] by simp
  ultimately have "unat c + unat (1 :: 32 word) < 2 ^ LENGTH(32)" by simp
  then have "unat (c + 1) = unat c + unat (1 :: 32 word)"
    by (rule unat_add_lem[THEN iffD1])
  then show ?thesis by simp
qed

lemma word_less_succ: "(c :: 32 word) \<noteq> UINT32_MAX \<Longrightarrow> c < c + 1"
  by (simp add: word_less_nat_alt unat_succ)

lemma word_less_succ_trans: "(c :: 32 word) \<noteq> UINT32_MAX \<Longrightarrow> x < c \<Longrightarrow> x < c + 1"
  by (simp add: word_less_nat_alt unat_succ)

lemma sent_bucket_simps [simp]:
  "sent (sent_bucket ex mn bs m)"
  "msg_min (msg (sent_bucket ex mn bs m)) = mn"
  "msg_mrn (msg (sent_bucket ex mn bs m)) = msg_mrn (assign_mrn bs m)"
  "segs (msg (sent_bucket ex mn bs m)) = segs m"
  "time (sent_bucket ex mn bs m) = stamp ex"
  by (simp_all add: sent_bucket_def Let_def cpdlc_msg_set_min_def assign_mrn_def
      cpdlc_msg_set_mrn_def split: option.splits)

lemma assign_mrn_mrn:
  "msg_mrn (assign_mrn bs m) =
     (case find (\<lambda>b. cpdlc_msg_get_dl (msg b) \<noteq> cpdlc_msg_get_dl m) (rev bs) of
        Some b \<Rightarrow> msg_min (msg b) | None \<Rightarrow> msg_mrn m)"
  by (simp add: assign_mrn_def cpdlc_msg_set_mrn_def cpdlc_msg_get_min_def split: option.splits)

lemma send_impl_target:
  assumes "send_target ml tid j"
  shows "msglist_send_impl ex ml m tid =
     Inr (ml\<lparr>thr := (if tid = CPDLC_NO_MSG_THR_ID
                      then \<lparr>thr_id = next_thr_id ml, status = CPDLC_MSG_THR_OPEN,
                            buckets = [sent_bucket ex (msglist_min ml) [] m], dirty = False\<rparr> # thr ml
                      else (thr ml)[j := (thr ml ! j)\<lparr>buckets := buckets (thr ml ! j) @
                             [sent_bucket ex (msglist_min ml) (buckets (thr ml ! j)) m]\<rparr>]),
               next_thr_id := (if tid = CPDLC_NO_MSG_THR_ID then next_thr_id ml + 1 else next_thr_id ml),
               msglist_min := msglist_min ml + 1\<rparr>, j)"
proof (cases "tid = CPDLC_NO_MSG_THR_ID")
  case True
  with assms show ?thesis by (simp add: send_target_def send_impl_new)
next
  case False
  with assms show ?thesis by (simp add: send_target_def send_impl_old)
qed

lemma mins_below_send:
  assumes t: "send_target ml tid j" and w: "msglist_min ml \<noteq> UINT32_MAX" and b: "mins_below ml"
    and s: "msglist_send_impl ex ml m tid = Inr (ml1, i)"
  shows "mins_below ml1"
proof -
  have lt: "x < msglist_min ml + 1" if "x < msglist_min ml" for x
    using w that by (rule word_less_succ_trans)
  have old: "list_all (\<lambda>b. sent b \<longrightarrow> msg_min (msg b) < msglist_min ml + 1) (buckets t)"
    if "t \<in> set (thr ml)" for t
    using b that by (auto simp: mins_below_def list_all_iff intro: lt)
  have new: "msg_min (msg (sent_bucket ex (msglist_min ml) bs m)) < msglist_min ml + 1" for bs
    using w by (simp add: word_less_succ)
  show ?thesis
  proof (cases "tid = CPDLC_NO_MSG_THR_ID")
    case True
    with s send_impl_target[OF t, of ex m] old new show ?thesis
      by (auto simp: mins_below_def list_all_iff)
  next
    case False
    from t False have j: "j < length (thr ml)" by (auto simp: send_target_def dest: find_idx_Some)
    from s send_impl_target[OF t, of ex m] False
    have ml1: "thr ml1 = (thr ml)[j := (thr ml ! j)\<lparr>buckets := buckets (thr ml ! j) @
                             [sent_bucket ex (msglist_min ml) (buckets (thr ml ! j)) m]\<rparr>]"
      "msglist_min ml1 = msglist_min ml + 1" by auto
    show ?thesis
      unfolding mins_below_def ml1
    proof (subst list_all_length, intro allI impI)
      fix n assume n: "n < length ((thr ml)[j := (thr ml ! j)\<lparr>buckets := buckets (thr ml ! j) @
                             [sent_bucket ex (msglist_min ml) (buckets (thr ml ! j)) m]\<rparr>])"
      then have nm: "thr ml ! n \<in> set (thr ml)" by simp
      show "list_all (\<lambda>b. sent b \<longrightarrow> msg_min (msg b) < msglist_min ml + 1)
         (buckets ((thr ml)[j := (thr ml ! j)\<lparr>buckets := buckets (thr ml ! j) @
                             [sent_bucket ex (msglist_min ml) (buckets (thr ml ! j)) m]\<rparr>] ! n))"
      proof (cases "n = j")
        case True
        with j old[OF nm] new show ?thesis by simp
      next
        case False
        with n old[OF nm] show ?thesis by simp
      qed
    qed
  qed
qed

text \<open>
  C4, as amended. A message sent into a new thread or into an existing thread that is not
  final is appended to the thread's buckets. Its MRN is the MIN of the latest bucket whose
  message has the other direction; when there is none the MRN stays as the caller set it.
  Its MIN is the engine's counter, which is then incremented modulo \<open>2^32\<close>. Unless the
  counter was at \<open>UINT32_MAX\<close>, the next MIN is strictly greater, and if all MINs of the
  sent messages held in the engine were below the counter they still are: the new MIN is
  greater than each of them.
\<close>

theorem send_assigns_mrn_and_min:
  "send_target ml tid j \<longrightarrow>
     (case msglist_send_impl ex ml m tid of
        Inl e \<Rightarrow> False
      | Inr (ml1, i) \<Rightarrow>
          i = j \<and>
          buckets (thr ml1 ! j) =
            send_buckets ml tid j @ [sent_bucket ex (msglist_min ml) (send_buckets ml tid j) m] \<and>
          msg_mrn (msg (last (buckets (thr ml1 ! j)))) =
            (case find (\<lambda>b. cpdlc_msg_get_dl (msg b) \<noteq> cpdlc_msg_get_dl m)
                    (rev (send_buckets ml tid j)) of
               Some b \<Rightarrow> msg_min (msg b)
             | None \<Rightarrow> msg_mrn m) \<and>
          msg_min (msg (last (buckets (thr ml1 ! j)))) = msglist_min ml \<and>
          msglist_min ml1 = msglist_min ml + 1 \<and>
          (msglist_min ml \<noteq> UINT32_MAX \<longrightarrow>
             msglist_min ml < msglist_min ml1 \<and> (mins_below ml \<longrightarrow> mins_below ml1)))"
proof
  assume t: "send_target ml tid j"
  note r = send_impl_target[OF t, of ex m]
  have j: "tid \<noteq> CPDLC_NO_MSG_THR_ID \<Longrightarrow> j < length (thr ml)"
    using t by (auto simp: send_target_def dest: find_idx_Some)
  have j0: "tid = CPDLC_NO_MSG_THR_ID \<Longrightarrow> j = 0"
    using t by (simp add: send_target_def)
  have mb: "mins_below (fst (projr (msglist_send_impl ex ml m tid)))"
    if "msglist_min ml \<noteq> UINT32_MAX" "mins_below ml"
    by (rule mins_below_send[OF t that, of ex m _ j]) (simp add: r)
  show "case msglist_send_impl ex ml m tid of
        Inl e \<Rightarrow> False
      | Inr (ml1, i) \<Rightarrow>
          i = j \<and>
          buckets (thr ml1 ! j) =
            send_buckets ml tid j @ [sent_bucket ex (msglist_min ml) (send_buckets ml tid j) m] \<and>
          msg_mrn (msg (last (buckets (thr ml1 ! j)))) =
            (case find (\<lambda>b. cpdlc_msg_get_dl (msg b) \<noteq> cpdlc_msg_get_dl m)
                    (rev (send_buckets ml tid j)) of
               Some b \<Rightarrow> msg_min (msg b)
             | None \<Rightarrow> msg_mrn m) \<and>
          msg_min (msg (last (buckets (thr ml1 ! j)))) = msglist_min ml \<and>
          msglist_min ml1 = msglist_min ml + 1 \<and>
          (msglist_min ml \<noteq> UINT32_MAX \<longrightarrow>
             msglist_min ml < msglist_min ml1 \<and> (mins_below ml \<longrightarrow> mins_below ml1))"
  proof (cases "tid = CPDLC_NO_MSG_THR_ID")
    case True
    with r j0 mb show ?thesis
      by (simp add: send_buckets_def assign_mrn_mrn word_less_succ)
  next
    case False
    with r j mb show ?thesis
      by (simp add: send_buckets_def assign_mrn_mrn word_less_succ)
  qed
qed


lemma ml_uplink_reached:
  "engine_run cpdlc_msglist_alloc [Recv (world 0) [um20_climb]] = Inr ml_uplink"
  by (simp add: ml_uplink_def engine_defs example_defs pred_defs msg_defs type_defs Let_def)

theorem send_assigns_mrn_and_min_witness:
  "send_target ml_uplink 0 0 \<and>
   (case msglist_send_impl (world 10) ml_uplink dm0_wilco 0 of
      Inl e \<Rightarrow> False
    | Inr (ml1, i) \<Rightarrow>
        i = 0 \<and> length (buckets (thr ml1 ! 0)) = 2 \<and>
        msg_mrn (msg (last (buckets (thr ml1 ! 0)))) = 5 \<and>
        msg_min (msg (last (buckets (thr ml1 ! 0)))) = 0 \<and>
        msglist_min ml1 = 1 \<and> mins_below ml1)"
proof -
  have 1: "send_target ml_uplink 0 0"
    by (simp add: send_target_def ml_uplink_def CPDLC_NO_MSG_THR_ID_def thr_status_is_final_def)
  have 2: "msglist_min ml_uplink \<noteq> UINT32_MAX" "mins_below ml_uplink"
    by (simp_all add: ml_uplink_def UINT32_MAX_def mins_below_def)
  have 3: "send_buckets ml_uplink 0 0 = buckets (thr ml_uplink ! 0)"
    by (simp add: send_buckets_def CPDLC_NO_MSG_THR_ID_def)
  have 4: "find (\<lambda>b. cpdlc_msg_get_dl (msg b) \<noteq> cpdlc_msg_get_dl dm0_wilco)
              (rev (buckets (thr ml_uplink ! 0))) = Some (hd (buckets (thr ml_uplink ! 0)))"
    by (simp add: ml_uplink_def example_defs cpdlc_msg_get_dl_def)
  have 5: "msg_min (msg (hd (buckets (thr ml_uplink ! 0)))) = 5" "msglist_min ml_uplink = 0"
    "length (buckets (thr ml_uplink ! 0)) = 1"
    by (simp_all add: ml_uplink_def example_defs)
  from send_assigns_mrn_and_min[of ml_uplink 0 0 "world 10" dm0_wilco] 1 2 4
  show ?thesis
    by (auto simp: 3 5 split: sum.splits)
qed

text \<open>
  C4 as stated fails in two ways. A message whose MRN the caller has set to 7, sent into
  a new thread, where no bucket of the other direction exists, keeps the MRN 7: it is
  not left absent. And with the counter at \<open>2^32 - 1\<close> two successive messages get the
  MINs \<open>4294967295\<close> and \<open>0\<close>.
\<close>

theorem send_min_mrn_counterexample:
  "(case msglist_send_impl (world 0) cpdlc_msglist_alloc (dm6_req\<lparr>msg_mrn := 7\<rparr>)
           CPDLC_NO_MSG_THR_ID of
      Inl e \<Rightarrow> False
    | Inr (ml1, i) \<Rightarrow>
        length (buckets (thr ml1 ! i)) = 1 \<and>
        msg_mrn (msg (last (buckets (thr ml1 ! i)))) = 7) \<and>
   (7 :: 32 word) \<noteq> CPDLC_INVALID_MSG_SEQ_NR \<and>
   (case msglist_send_impl (world 0) ml_wrapping dm6_req CPDLC_NO_MSG_THR_ID of
      Inl e \<Rightarrow> False
    | Inr (ml1, i) \<Rightarrow>
        msg_min (msg (last (buckets (thr ml1 ! i)))) = 4294967295 \<and>
        (case msglist_send_impl (world 1) ml1 dm6_req CPDLC_NO_MSG_THR_ID of
           Inl e \<Rightarrow> False
         | Inr (ml2, i2) \<Rightarrow> msg_min (msg (last (buckets (thr ml2 ! i2)))) = 0))"
  by (simp add: send_impl_new ml_wrapping_def cpdlc_msglist_alloc_def dm6_req_def one_seg_msg_def
      CPDLC_INVALID_MSG_SEQ_NR_def)


subsection \<open>Correlation skips closed threads\<close>

lemma thr_scan_None:
  "list_all (\<lambda>t. status t = CPDLC_MSG_THR_CLOSED \<or> bucket_scan m (rev (buckets t)) = Inr False) ts
   \<Longrightarrow> thr_scan m ts = Inr None"
  by (induction ts) auto

lemma find_by_mrn_None:
  assumes "list_all (\<lambda>t. status t = CPDLC_MSG_THR_CLOSED \<or>
             bucket_scan m (rev (buckets t)) = Inr False) (thr ml)"
  shows "msg_thr_find_by_mrn ml m = Inr None"
proof -
  from assms have "list_all (\<lambda>t. status t = CPDLC_MSG_THR_CLOSED \<or>
             bucket_scan m (rev (buckets t)) = Inr False) (rev (thr ml))"
    by (simp add: list_all_iff)
  then show ?thesis by (simp add: msg_thr_find_by_mrn_def thr_scan_None)
qed

lemma thr_status_upd_head:
  assumes u: "thr_status_upd ex ml 0 = Inr ml'" and l: "thr ml = t # old"
    and ne: "buckets t \<noteq> []"
  shows "\<exists>new t'. thr ml' = new @ t' # old \<and> thr_id t' = thr_id t \<and>
           hd (buckets t') = hd (buckets t) \<and>
           thr_id (thr ml' ! (length (thr ml') - length (thr ml))) = thr_id t"
proof -
  note c = thr_status_upd_cases[OF u]
  from c consider (same) "ml' = ml"
    | (set) s where "ml' = set_status ml 0 s"
    | (tmo) ml1 j where "\<not> thr_status_is_final (status (thr ml ! 0))"
        "msglist_send_impl ex ml (timedout_msg ex (last (buckets (thr ml ! 0)))) (thr_id (thr ml ! 0)) = Inr (ml1, j)"
        "ml' = set_status ml1 (0 + (length (thr ml1) - length (thr ml))) CPDLC_MSG_THR_TIMEDOUT"
    | (ended)
        "ml' = ml\<lparr>thr := (thr ml)[0 := (thr ml ! 0)\<lparr>dirty := False, status := CPDLC_MSG_THR_CONN_ENDED\<rparr>]\<rparr>"
    by blast
  then show ?thesis
  proof cases
    case same
    with l show ?thesis by (intro exI[of _ "[]"] exI[of _ t]) simp
  next
    case (set s)
    with l show ?thesis
      by (intro exI[of _ "[]"] exI[of _ "t\<lparr>status := s\<rparr>"]) (simp add: set_status_def)
  next
    case ended
    with l show ?thesis
      by (intro exI[of _ "[]"] exI[of _ "t\<lparr>dirty := False, status := CPDLC_MSG_THR_CONN_ENDED\<rparr>"]) simp
  next
    case (tmo ml1 j)
    let ?m = "timedout_msg ex (last (buckets t))"
    show ?thesis
    proof (cases "thr_id t = CPDLC_NO_MSG_THR_ID")
      case True
      with tmo(2) l have "thr ml1 = \<lparr>thr_id = next_thr_id ml, status = CPDLC_MSG_THR_OPEN,
                       buckets = [sent_bucket ex (msglist_min ml) [] ?m], dirty = False\<rparr> # t # old"
        by (auto simp: send_impl_new)
      with tmo(3) l show ?thesis
        by (intro exI[of _ "[\<lparr>thr_id = next_thr_id ml, status = CPDLC_MSG_THR_OPEN,
                       buckets = [sent_bucket ex (msglist_min ml) [] ?m], dirty = False\<rparr>]"]
              exI[of _ "t\<lparr>status := CPDLC_MSG_THR_TIMEDOUT\<rparr>"])
           (simp add: set_status_def)
    next
      case False
      with tmo(2) l have "thr ml1 = t\<lparr>buckets := buckets t @
                     [sent_bucket ex (msglist_min ml) (buckets t) ?m]\<rparr> # old"
        by (auto simp: send_impl_old)
      with tmo(3) l ne show ?thesis
        by (intro exI[of _ "[]"] exI[of _ "t\<lparr>buckets := buckets t @
                     [sent_bucket ex (msglist_min ml) (buckets t) ?m], status := CPDLC_MSG_THR_TIMEDOUT\<rparr>"])
           (simp add: set_status_def)
    qed
  qed
qed

lemma recv_one_new_thread:
  assumes f: "msg_thr_find_by_mrn ml m = Inr None" and r: "recv_one ex ml m = Inr (ml', tid)"
  shows "\<exists>new t'. thr ml' = new @ t' # thr ml \<and> thr_id t' = next_thr_id ml \<and>
           tid = next_thr_id ml \<and> msg (hd (buckets t')) = m \<and> \<not> sent (hd (buckets t'))"
  using r
proof (cases rule: recv_one_cases)
  case (old i)
  with f show ?thesis by simp
next
  case new
  let ?t = "\<lparr>thr_id = next_thr_id ml, status = calloc_status,
          buckets = [\<lparr>msg = m, tok = CPDLC_INVALID_MSG_TOKEN, sent = False, hours = get_hours ex,
              mins = get_mins ex, time = stamp ex\<rparr>], dirty = True\<rparr>"
  let ?ml2 = "ml\<lparr>next_thr_id := next_thr_id ml + 1, thr := ?t # thr ml\<rparr>"
  have "thr ?ml2 = ?t # thr ml" "buckets ?t \<noteq> []" by simp_all
  from thr_status_upd_head[OF new(2) this]
  obtain nw t' where h: "thr ml' = nw @ t' # thr ml" "thr_id t' = next_thr_id ml"
    "hd (buckets t') = hd (buckets ?t)"
    "thr_id (thr ml' ! (length (thr ml') - length (thr ?ml2))) = next_thr_id ml"
    by auto
  from r f new(2) have "tid = thr_id (thr ml' ! (0 + (length (thr ml') - length (thr ?ml2))))"
    by (simp add: recv_one_def find_msg_thr_new Let_def)
  with h show ?thesis by (intro exI[of _ nw] exI[of _ t']) simp
qed

lemma thr_scan_pick:
  assumes "list_all (\<lambda>t. status t = CPDLC_MSG_THR_CLOSED \<or>
             bucket_scan m (rev (buckets t)) = Inr False) pre"
    and "status t \<noteq> CPDLC_MSG_THR_CLOSED" "bucket_scan m (rev (buckets t)) = Inr True"
  shows "thr_scan m (pre @ t # post) = Inr (Some (length post))"
  using assms by (induction pre) auto

lemma find_by_mrn_pick:
  assumes i: "i < length (thr ml)"
    and mrn: "cpdlc_msg_get_mrn m \<noteq> CPDLC_INVALID_MSG_SEQ_NR"
    and t: "status (thr ml ! i) \<noteq> CPDLC_MSG_THR_CLOSED"
      "bucket_scan m (rev (buckets (thr ml ! i))) = Inr True"
    and later: "list_all (\<lambda>t. status t = CPDLC_MSG_THR_CLOSED \<or>
             bucket_scan m (rev (buckets t)) = Inr False) (drop (Suc i) (thr ml))"
  shows "msg_thr_find_by_mrn ml m = Inr (Some i)"
proof -
  have "thr ml = take i (thr ml) @ thr ml ! i # drop (Suc i) (thr ml)"
    using i by (rule id_take_nth_drop)
  then have "rev (thr ml) = rev (drop (Suc i) (thr ml)) @ thr ml ! i # rev (take i (thr ml))"
    by (metis rev_append rev.simps(2) append_Cons append_Nil append_assoc)
  moreover have "list_all (\<lambda>t. status t = CPDLC_MSG_THR_CLOSED \<or>
             bucket_scan m (rev (buckets t)) = Inr False) (rev (drop (Suc i) (thr ml)))"
    using later by (simp add: list_all_iff)
  ultimately have "thr_scan m (rev (thr ml)) = Inr (Some (length (rev (take i (thr ml)))))"
    using thr_scan_pick[OF _ t] by simp
  with i mrn show ?thesis by (simp add: msg_thr_find_by_mrn_def)
qed

lemma recv_one_into_final:
  assumes f: "msg_thr_find_by_mrn ml m = Inr (Some i)"
    and fin: "thr_status_is_final (status (thr ml ! i))"
  shows "recv_one ex ml m =
     Inr (ml\<lparr>thr := (thr ml)[i := (thr ml ! i)\<lparr>dirty := True,
                buckets := buckets (thr ml ! i) @
                  [\<lparr>msg = m, tok = CPDLC_INVALID_MSG_TOKEN, sent = False,
                    hours = get_hours ex, mins = get_mins ex, time = stamp ex\<rparr>]\<rparr>]\<rparr>,
          thr_id (thr ml ! i))"
proof -
  from find_by_mrn_Some[OF f] have i: "i < length (thr ml)" by simp
  let ?b = "\<lparr>msg = m, tok = CPDLC_INVALID_MSG_TOKEN, sent = False,
                    hours = get_hours ex, mins = get_mins ex, time = stamp ex\<rparr>"
  let ?ml2 = "ml\<lparr>thr := (thr ml)[i := (thr ml ! i)\<lparr>dirty := True,
                buckets := buckets (thr ml ! i) @ [?b]\<rparr>]\<rparr>"
  have "thr_status_upd ex ?ml2 i = Inr ?ml2"
    by (rule thr_status_upd_final) (use i fin in simp_all)
  with i show ?thesis
    by (simp add: recv_one_def f bnd_def Let_def)
qed

text \<open>
  C1, as amended. The correlation step never picks a thread whose status is \<open>CLOSED\<close>;
  receiving messages leaves every thread that is \<open>CLOSED\<close> exactly as it is; and a
  message for which no thread other than \<open>CLOSED\<close> ones holds a matching bucket starts a
  new thread, put in front of the existing ones, whose first bucket holds the message.
  A thread in any other status is not skipped: of the threads that are not \<open>CLOSED\<close> and
  hold a matching bucket, the step picks the one nearest the tail of the list, and when
  that thread is final the message is appended to it, the thread is marked dirty, its
  status stays, and no thread is created.
\<close>

theorem closed_thread_forces_new:
  "(msg_thr_find_by_mrn ml m = Inr (Some i) \<longrightarrow>
      i < length (thr ml) \<and> status (thr ml ! i) \<noteq> CPDLC_MSG_THR_CLOSED) \<and>
   (msg_recv_cb ex ml msgs = Inr (ml', upd) \<longrightarrow> closed_kept (thr ml) (thr ml')) \<and>
   (list_all (\<lambda>t. status t = CPDLC_MSG_THR_CLOSED \<or>
                bucket_scan m (rev (buckets t)) = Inr False) (thr ml) \<longrightarrow>
      msg_thr_find_by_mrn ml m = Inr None \<and>
      (recv_one ex ml m = Inr (ml1, tid) \<longrightarrow>
         (\<exists>new t'. thr ml1 = new @ t' # thr ml \<and> thr_id t' = next_thr_id ml \<and>
            tid = next_thr_id ml \<and> msg (hd (buckets t')) = m \<and> \<not> sent (hd (buckets t'))))) \<and>
   (j < length (thr ml) \<longrightarrow> cpdlc_msg_get_mrn m \<noteq> CPDLC_INVALID_MSG_SEQ_NR \<longrightarrow>
    status (thr ml ! j) \<noteq> CPDLC_MSG_THR_CLOSED \<longrightarrow>
    bucket_scan m (rev (buckets (thr ml ! j))) = Inr True \<longrightarrow>
    list_all (\<lambda>t. status t = CPDLC_MSG_THR_CLOSED \<or>
                bucket_scan m (rev (buckets t)) = Inr False) (drop (Suc j) (thr ml)) \<longrightarrow>
      msg_thr_find_by_mrn ml m = Inr (Some j) \<and>
      (thr_status_is_final (status (thr ml ! j)) \<longrightarrow>
         recv_one ex ml m =
           Inr (ml\<lparr>thr := (thr ml)[j := (thr ml ! j)\<lparr>dirty := True,
                      buckets := buckets (thr ml ! j) @
                        [\<lparr>msg = m, tok = CPDLC_INVALID_MSG_TOKEN, sent = False,
                          hours = get_hours ex, mins = get_mins ex, time = stamp ex\<rparr>]\<rparr>]\<rparr>,
                thr_id (thr ml ! j))))"
proof (intro conjI impI)
  assume "msg_thr_find_by_mrn ml m = Inr (Some i)"
  from find_by_mrn_Some[OF this]
  show "i < length (thr ml)" "status (thr ml ! i) \<noteq> CPDLC_MSG_THR_CLOSED" by simp_all
next
  assume "msg_recv_cb ex ml msgs = Inr (ml', upd)"
  from msg_recv_cb_rel[OF closed_same_ok this] show "closed_kept (thr ml) (thr ml')"
    by (simp add: closed_kept_def)
next
  assume a: "list_all (\<lambda>t. status t = CPDLC_MSG_THR_CLOSED \<or>
                bucket_scan m (rev (buckets t)) = Inr False) (thr ml)"
  then show n: "msg_thr_find_by_mrn ml m = Inr None" by (rule find_by_mrn_None)
  assume "recv_one ex ml m = Inr (ml1, tid)"
  from recv_one_new_thread[OF n this]
  show "\<exists>new t'. thr ml1 = new @ t' # thr ml \<and> thr_id t' = next_thr_id ml \<and>
            tid = next_thr_id ml \<and> msg (hd (buckets t')) = m \<and> \<not> sent (hd (buckets t'))" .
next
  assume "j < length (thr ml)" "cpdlc_msg_get_mrn m \<noteq> CPDLC_INVALID_MSG_SEQ_NR"
    "status (thr ml ! j) \<noteq> CPDLC_MSG_THR_CLOSED"
    "bucket_scan m (rev (buckets (thr ml ! j))) = Inr True"
    "list_all (\<lambda>t. status t = CPDLC_MSG_THR_CLOSED \<or>
                bucket_scan m (rev (buckets t)) = Inr False) (drop (Suc j) (thr ml))"
  then show f: "msg_thr_find_by_mrn ml m = Inr (Some j)" by (rule find_by_mrn_pick)
  assume "thr_status_is_final (status (thr ml ! j))"
  with f show "recv_one ex ml m =
           Inr (ml\<lparr>thr := (thr ml)[j := (thr ml ! j)\<lparr>dirty := True,
                      buckets := buckets (thr ml ! j) @
                        [\<lparr>msg = m, tok = CPDLC_INVALID_MSG_TOKEN, sent = False,
                          hours = get_hours ex, mins = get_mins ex, time = stamp ex\<rparr>]\<rparr>]\<rparr>,
                thr_id (thr ml ! j))"
    by (rule recv_one_into_final)
qed


lemma ml_closed_reached:
  "engine_run cpdlc_msglist_alloc [Send (world 0) dm6_req CPDLC_NO_MSG_THR_ID, Thr_close 0]
     = Inr ml_closed"
  by (simp add: ml_closed_def engine_defs example_defs example_defs2 pred_defs msg_defs type_defs Let_def)

lemma recv_into_closed:
  "\<exists>ml'. msg_recv_cb (world 20) ml_closed [um169_reply] = Inr (ml', []) \<and>
      recv_one (world 20) ml_closed um169_reply = Inr (ml', 1) \<and>
      map thr_id (thr ml') = [1, 0] \<and> map (length \<circ> buckets) (thr ml') = [1, 1]"
  by (simp add: ml_closed_def engine_defs example_defs example_defs2 pred_defs msg_defs type_defs Let_def)

theorem closed_thread_forces_new_witness:
  "status (hd (thr ml_closed)) = CPDLC_MSG_THR_CLOSED \<and>
   bucket_scan um169_reply (rev (buckets (hd (thr ml_closed)))) = Inr True \<and>
   msg_thr_find_by_mrn ml_closed um169_reply = Inr None \<and>
   (\<exists>ml'. msg_recv_cb (world 20) ml_closed [um169_reply] = Inr (ml', []) \<and>
      closed_kept (thr ml_closed) (thr ml') \<and>
      (\<exists>new t'. thr ml' = new @ t' # thr ml_closed \<and> thr_id t' = 1 \<and>
         msg (hd (buckets t')) = um169_reply)) \<and>
   status (hd (thr ml_accepted)) = CPDLC_MSG_THR_ACCEPTED \<and>
   msg_thr_find_by_mrn ml_accepted um169_reply = Inr (Some 0) \<and>
   (case recv_one (world 20) ml_accepted um169_reply of
      Inl e \<Rightarrow> False
    | Inr (ml', tid) \<Rightarrow>
        tid = 0 \<and> map (length \<circ> buckets) (thr ml') = [3] \<and>
        map status (thr ml') = [CPDLC_MSG_THR_ACCEPTED] \<and> map dirty (thr ml') = [True])"
proof -
  obtain ml' where r: "msg_recv_cb (world 20) ml_closed [um169_reply] = Inr (ml', [])"
      "recv_one (world 20) ml_closed um169_reply = Inr (ml', 1)"
    using recv_into_closed by blast
  have 1: "status (hd (thr ml_closed)) = CPDLC_MSG_THR_CLOSED"
    "bucket_scan um169_reply (rev (buckets (hd (thr ml_closed)))) = Inr True"
    "list_all (\<lambda>t. status t = CPDLC_MSG_THR_CLOSED \<or>
                bucket_scan um169_reply (rev (buckets t)) = Inr False) (thr ml_closed)"
    "next_thr_id ml_closed = 1"
    by (simp_all add: ml_closed_def example_defs example_defs2 pred_defs msg_defs type_defs
        msg_matches_bucket_def)
  have 2: "0 < length (thr ml_accepted)"
    "cpdlc_msg_get_mrn um169_reply \<noteq> CPDLC_INVALID_MSG_SEQ_NR"
    "status (thr ml_accepted ! 0) = CPDLC_MSG_THR_ACCEPTED"
    "status (hd (thr ml_accepted)) = CPDLC_MSG_THR_ACCEPTED"
    "bucket_scan um169_reply (rev (buckets (thr ml_accepted ! 0))) = Inr True"
    "drop (Suc 0) (thr ml_accepted) = []"
    "thr_id (thr ml_accepted ! 0) = 0" "length (thr ml_accepted) = 1"
    "length (buckets (thr ml_accepted ! 0)) = 2"
    by (simp_all add: ml_accepted_def example_defs pred_defs msg_defs type_defs
        msg_matches_bucket_def)
  from closed_thread_forces_new[of ml_closed um169_reply 0 "world 20" "[um169_reply]" ml' "[]" ml' 1 0]
    r 1
  have a: "msg_thr_find_by_mrn ml_closed um169_reply = Inr None"
    "closed_kept (thr ml_closed) (thr ml')"
    "\<exists>new t'. thr ml' = new @ t' # thr ml_closed \<and> thr_id t' = 1 \<and>
         msg (hd (buckets t')) = um169_reply"
    by auto
  from closed_thread_forces_new[of ml_accepted um169_reply 0 "world 20" "[]" ml_accepted "[]"
      ml_accepted 0 0] 2
  have b: "msg_thr_find_by_mrn ml_accepted um169_reply = Inr (Some 0)"
    "recv_one (world 20) ml_accepted um169_reply =
       Inr (ml_accepted\<lparr>thr := (thr ml_accepted)[0 := (thr ml_accepted ! 0)\<lparr>dirty := True,
              buckets := buckets (thr ml_accepted ! 0) @
                [\<lparr>msg = um169_reply, tok = CPDLC_INVALID_MSG_TOKEN, sent = False,
                  hours = get_hours (world 20), mins = get_mins (world 20),
                  time = stamp (world 20)\<rparr>]\<rparr>]\<rparr>,
            thr_id (thr ml_accepted ! 0))"
    by (simp_all add: thr_status_is_final_def)
  have c: "case recv_one (world 20) ml_accepted um169_reply of
      Inl e \<Rightarrow> False
    | Inr (ml', tid) \<Rightarrow>
        tid = 0 \<and> map (length \<circ> buckets) (thr ml') = [3] \<and>
        map status (thr ml') = [CPDLC_MSG_THR_ACCEPTED] \<and> map dirty (thr ml') = [True]"
    unfolding b(2) by (simp add: ml_accepted_def)
  from r(1) 1(1,2) a 2(4) b(1) c show ?thesis by blast
qed

text \<open>
  C1 as stated fails for the final statuses other than \<open>CLOSED\<close>. The thread of
  \<open>ml_accepted\<close> is \<open>ACCEPTED\<close> and holds the sent WILCO with MIN 0; the uplink with
  MRN 0 is put into that thread (it gets a third bucket and stays the only thread).
\<close>

theorem recv_into_final_counterexample:
  "status (hd (thr ml_accepted)) = CPDLC_MSG_THR_ACCEPTED \<and>
   thr_status_is_final (status (hd (thr ml_accepted))) \<and>
   msg_mrn um169_reply = msg_min (msg (buckets (hd (thr ml_accepted)) ! 1)) \<and>
   msg_thr_find_by_mrn ml_accepted um169_reply = Inr (Some 0) \<and>
   (case msg_recv_cb (world 20) ml_accepted [um169_reply] of
      Inl e \<Rightarrow> False
    | Inr (ml', upd) \<Rightarrow>
        length (thr ml') = 1 \<and>
        buckets (hd (thr ml')) =
          buckets (hd (thr ml_accepted)) @
            [\<lparr>msg = um169_reply, tok = CPDLC_INVALID_MSG_TOKEN, sent = False, hours = 12,
              mins = 30, time = 20\<rparr>] \<and>
        status (hd (thr ml')) = CPDLC_MSG_THR_ACCEPTED)"
  by (simp add: ml_accepted_def engine_defs example_defs pred_defs msg_defs type_defs Let_def)


subsection \<open>The timeout branch\<close>








subsection \<open>The timeout in the spec's words\<close>











lemmas ground_defs = ml_ground_def ml_ground30_def dm6_recv_def ul_coded_as_dm6_def ul_coded_30_def

lemma ml_ground30_reached:
  "engine_run cpdlc_msglist_alloc [Recv (world 0) [dm6_recv], Send (world 10) ul_coded_30 0]
     = Inr ml_ground30"
  by (simp add: ground_defs engine_defs example_defs pred_defs msg_defs type_defs Let_def)






section \<open>Lemmas about the daemon\<close>

subsection \<open>What leaves the queue alone\<close>

lemma same_queue_refl [simp]: "same_queue st st"
  by (simp add: same_queue_def)

lemma same_queue_trans: "same_queue a b \<Longrightarrow> same_queue b c \<Longrightarrow> same_queue a c"
  by (simp add: same_queue_def)

lemma same_queue_accounted: "same_queue st st' \<Longrightarrow> queue_accounted st' = queue_accounted st"
  by (simp add: same_queue_def queue_accounted_def)

lemma conn_send_buf_queue: "conn_send_buf st c buf = Inr st' \<Longrightarrow> same_queue st st'"
  by (auto simp: conn_send_buf_def same_queue_def split: option.splits if_splits)

lemma send_buf_all_queue: "send_buf_all st cs buf = Inr st' \<Longrightarrow> same_queue st st'"
proof (induction cs arbitrary: st)
  case Nil
  then show ?case by simp
next
  case (Cons c cs)
  from Cons.prems obtain st1 where 1: "conn_send_buf st c buf = Inr st1"
    and 2: "send_buf_all st1 cs buf = Inr st'"
    by (auto simp: bnd_Inr_iff)
  from conn_send_buf_queue[OF 1] Cons.IH[OF 2] show ?case by (rule same_queue_trans)
qed

lemma send_error_msg_queue: "send_error_msg cd st c orig txt = Inr st' \<Longrightarrow> same_queue st st'"
  unfolding send_error_msg_def conn_send_msg_def by (rule conn_send_buf_queue)

lemma conn_remove_from_queue: "conn_remove_from st c = Inr st' \<Longrightarrow> same_queue st st'"
  by (auto simp: conn_remove_from_def same_queue_def split: option.splits if_splits)

lemma close_conn_queue: "close_conn st c = Inr st' \<Longrightarrow> same_queue st st'"
  by (auto simp: close_conn_def same_queue_def bnd_Inr_iff split: option.splits if_splits
      dest!: conn_remove_from_queue)

lemma handle_accepts_queue: "same_queue st (handle_accepts st c)"
  by (simp add: handle_accepts_def same_queue_def split: option.splits)

lemma process_logon_msg_queue:
  assumes "process_logon_msg cd st c m = Inr (st', ok)"
  shows "same_queue st st'"
proof -
  from assms obtain conn0 where c0: "conns st c = Some conn0"
    by (auto simp: process_logon_msg_def split: option.splits)
  with assms obtain st1 where 1: "(if logon_complete conn0 then conn_remove_from st c else Inr st) = Inr st1"
    by (auto simp: process_logon_msg_def bnd_Inr_iff)
  then have q1: "same_queue st st1"
    by (auto split: if_splits dest: conn_remove_from_queue)
  from assms c0 1 obtain conn1 where c1: "conns st1 c = Some conn1"
    by (auto simp: process_logon_msg_def split: option.splits)
  let ?conn2 = "conn1\<lparr>logon_complete := True,
                     conn_to := lacf_strlcpy (cpdlc_msg_get_to m) CALLSIGN_LEN,
                     conn_from := lacf_strlcpy (cpdlc_msg_get_from m) CALLSIGN_LEN\<rparr>"
  let ?st2 = "st1\<lparr>conns := (conns st1)(c \<mapsto> ?conn2)\<rparr>"
  have q2: "same_queue st1 ?st2" by (simp add: same_queue_def)
  from assms c0 1 c1 have "same_queue ?st2 st'"
    by (auto simp: process_logon_msg_def Let_def bnd_Inr_iff htbl_set_def same_queue_def
        split: if_splits dest!: send_error_msg_queue)
  with q1 q2 show ?thesis by (blast intro: same_queue_trans)
qed

subsection \<open>The byte counter\<close>

lemma entry_bytes_pos: "0 < entry_bytes q"
  by (simp add: entry_bytes_def)

lemma accounted_zero_iff:
  assumes "queue_accounted st"
  shows "queued_msg_bytes st = 0 \<longleftrightarrow> queued_msgs st = []"
proof (cases "queued_msgs st")
  case Nil
  with assms show ?thesis by (simp add: queue_accounted_def)
next
  case (Cons q qs)
  with assms entry_bytes_pos[of q] show ?thesis by (simp add: queue_accounted_def)
qed

lemma store_msg_accounted:
  assumes "queue_accounted st"
  shows "queue_accounted (fst (store_msg cd tnow st m to))"
  using assms by (simp add: store_msg_def Let_def queue_accounted_def entry_bytes_def)

lemma store_msg_adds:
  assumes "store_msg cd tnow st m to = (st', True)"
  shows "queued_msgs st' = queued_msgs st @ [last (queued_msgs st')] \<and>
         q_msg (last (queued_msgs st')) = encode cd m \<and>
         queued_msg_bytes st' = queued_msg_bytes st + entry_bytes (last (queued_msgs st'))"
  using assms by (auto simp: store_msg_def Let_def entry_bytes_def split: if_splits)

lemma sum_list_remove_nth:
  assumes "i < length xs"
  shows "sum_list (map f (take i xs @ drop (Suc i) xs)) + f (xs ! i) = (sum_list (map f xs) :: nat)"
proof -
  have "sum_list (map f xs) = sum_list (map f (take i xs @ xs ! i # drop (Suc i) xs))"
    using id_take_nth_drop[OF assms] by simp
  then show ?thesis by simp
qed

lemma dequeue_msg_accounted:
  assumes a: "queue_accounted st" and d: "dequeue_msg st i = Inr st'"
  shows "queue_accounted st' \<and>
         queued_msgs st' = take i (queued_msgs st) @ drop (Suc i) (queued_msgs st) \<and>
         queued_msg_bytes st' = queued_msg_bytes st - entry_bytes (queued_msgs st ! i) \<and>
         entry_bytes (queued_msgs st ! i) \<le> queued_msg_bytes st \<and>
         conns st' = conns st \<and> conns_by_from st' = conns_by_from st"
proof -
  from d have i: "i < length (queued_msgs st)"
    by (auto simp: dequeue_msg_def split: if_splits)
  from sum_list_remove_nth[OF i, of entry_bytes] a
  have s: "sum_list (map entry_bytes (take i (queued_msgs st) @ drop (Suc i) (queued_msgs st)))
      + entry_bytes (queued_msgs st ! i) = queued_msg_bytes st"
    by (simp add: queue_accounted_def)
  from d i have st': "st' = st\<lparr>queued_msg_bytes := queued_msg_bytes st - entry_bytes (queued_msgs st ! i),
        queued_msgs := take i (queued_msgs st) @ drop (Suc i) (queued_msgs st)\<rparr>"
    and ge: "entry_bytes (queued_msgs st ! i) \<le> queued_msg_bytes st"
    by (auto simp: dequeue_msg_def Let_def entry_bytes_def split: if_splits)
  from s have "queued_msg_bytes st - entry_bytes (queued_msgs st ! i) =
      sum_list (map entry_bytes (take i (queued_msgs st) @ drop (Suc i) (queued_msgs st)))"
    by linarith
  with st' ge show ?thesis by (simp add: queue_accounted_def)
qed

lemma dequeue_msg_no_assert:
  assumes a: "queue_accounted st" and i: "i < length (queued_msgs st)"
  shows "\<exists>st'. dequeue_msg st i = Inr st'"
proof -
  from sum_list_remove_nth[OF i, of entry_bytes] a
  have s: "sum_list (map entry_bytes (take i (queued_msgs st) @ drop (Suc i) (queued_msgs st)))
      + entry_bytes (queued_msgs st ! i) = queued_msg_bytes st"
    by (simp add: queue_accounted_def)
  let ?B = "entry_bytes (queued_msgs st ! i)"
  let ?rest = "take i (queued_msgs st) @ drop (Suc i) (queued_msgs st)"
  from s have ge: "\<not> queued_msg_bytes st < ?B" by linarith
  have z: "queued_msg_bytes st - ?B = 0" if "?rest = []"
    using s that by simp
  have "dequeue_msg st i = Inr (st\<lparr>queued_msg_bytes := queued_msg_bytes st - ?B,
        queued_msgs := ?rest\<rparr>)"
  proof (cases "?rest = []")
    case True
    with i ge z[OF True] show ?thesis
      by (simp add: dequeue_msg_def Let_def entry_bytes_def del: append_is_Nil_conv)
  next
    case False
    with i ge show ?thesis
      by (simp add: dequeue_msg_def Let_def entry_bytes_def del: append_is_Nil_conv)
  qed
  then show ?thesis by blast
qed

lemma queued_loop_accounted:
  "queue_accounted st \<Longrightarrow> queued_loop tnow qs i st = Inr st' \<Longrightarrow> queue_accounted st'"
proof (induction qs arbitrary: i st)
  case Nil
  then show ?case by simp
next
  case (Cons q rest)
  let ?l = "conns_by_from st (q_to q)"
  consider (deliver) "?l \<noteq> []"
    | (expire) "?l = []" "tnow - created q > QUEUED_MSG_TIMEOUT"
    | (keep) "?l = []" "\<not> tnow - created q > QUEUED_MSG_TIMEOUT"
    by blast
  then show ?case
  proof cases
    case deliver
    with Cons.prems(2) obtain st1 st2 where 1: "send_buf_all st ?l (q_msg q) = Inr st1"
      and 2: "dequeue_msg st1 i = Inr st2" and 3: "queued_loop tnow rest i st2 = Inr st'"
      by (auto simp: bnd_Inr_iff Let_def)
    from send_buf_all_queue[OF 1] Cons.prems(1) have "queue_accounted st1"
      by (simp add: same_queue_accounted)
    from dequeue_msg_accounted[OF this 2] have "queue_accounted st2" by simp
    from Cons.IH[OF this 3] show ?thesis .
  next
    case expire
    with Cons.prems(2) obtain st2 where 2: "dequeue_msg st i = Inr st2"
      and 3: "queued_loop tnow rest i st2 = Inr st'"
      by (auto simp: bnd_Inr_iff Let_def)
    from dequeue_msg_accounted[OF Cons.prems(1) 2] have "queue_accounted st2" by simp
    from Cons.IH[OF this 3] show ?thesis .
  next
    case keep
    with Cons.prems(2) have "queued_loop tnow rest (Suc i) st = Inr st'"
      by (simp add: Let_def)
    from Cons.IH[OF Cons.prems(1) this] show ?thesis .
  qed
qed

lemma conn_process_msg_accounted:
  assumes a: "queue_accounted st" and p: "conn_process_msg cd tnow st c m = Inr st'"
  shows "queue_accounted st'"
proof -
  from p obtain conn0 where c0: "conns st c = Some conn0"
    by (auto simp: conn_process_msg_def split: option.splits)
  show ?thesis
  proof (cases "\<not> logon_complete conn0 \<and> \<not> is_logon m")
    case True
    with p c0 have "send_error_msg cd st c (Some m) ''LOGON REQUIRED'' = Inr st'"
      by (simp add: conn_process_msg_def)
    from send_error_msg_queue[OF this] a show ?thesis by (simp add: same_queue_accounted)
  next
    case False
    with p c0 obtain st1 ok where 1:
        "(if is_logon m then process_logon_msg cd st c m else Inr (st, True)) = Inr (st1, ok)"
      by (auto simp: conn_process_msg_def bnd_Inr_iff)
    then have "same_queue st st1"
      by (auto split: if_splits dest: process_logon_msg_queue)
    with a have a1: "queue_accounted st1" by (simp add: same_queue_accounted)
    show ?thesis
    proof (cases ok)
      case False
      with p c0 1 \<open>\<not> (\<not> logon_complete conn0 \<and> \<not> is_logon m)\<close> have "st' = st1"
        by (auto simp: conn_process_msg_def)
      with a1 show ?thesis by simp
    next
      case True
      with p c0 1 \<open>\<not> (\<not> logon_complete conn0 \<and> \<not> is_logon m)\<close>
      obtain conn where c1: "conns st1 c = Some conn"
        by (auto simp: conn_process_msg_def split: option.splits)
      let ?to = "if msg_to m \<noteq> [] then lacf_strlcpy (msg_to m) CALLSIGN_LEN
                                else lacf_strlcpy (conn_to conn) CALLSIGN_LEN"
      let ?m1 = "cpdlc_msg_set_from m (conn_from conn)"
      from p c0 1 True c1 \<open>\<not> (\<not> logon_complete conn0 \<and> \<not> is_logon m)\<close>
      consider (missing) "send_error_msg cd st1 c (Some m) ''MESSAGE MISSING TO= HEADER'' = Inr st'"
        | (stored) "store_msg cd tnow st1 ?m1 ?to = (st', True)"
        | (full) st2 where "store_msg cd tnow st1 ?m1 ?to = (st2, False)"
            "send_error_msg cd st2 c (Some ?m1) ''TOO MANY QUEUED MESSAGES'' = Inr st'"
        | (sent) "send_buf_all st1 (conns_by_from st1 ?to) (encode cd ?m1) = Inr st'"
        by (auto simp: conn_process_msg_def Let_def split: if_splits prod.splits bool.splits)
      then show ?thesis
      proof cases
        case missing
        from send_error_msg_queue[OF this] a1 show ?thesis by (simp add: same_queue_accounted)
      next
        case stored
        with store_msg_accounted[OF a1, of cd tnow ?m1 ?to] show ?thesis by simp
      next
        case (full st2)
        with store_msg_accounted[OF a1, of cd tnow ?m1 ?to] have "queue_accounted st2" by simp
        with send_error_msg_queue[OF full(2)] show ?thesis by (simp add: same_queue_accounted)
      next
        case sent
        from send_buf_all_queue[OF this] a1 show ?thesis by (simp add: same_queue_accounted)
      qed
    qed
  qed
qed

lemma process_msgs_accounted:
  "queue_accounted st \<Longrightarrow> process_msgs cd tnow st c ms = Inr st' \<Longrightarrow> queue_accounted st'"
proof (induction ms arbitrary: st)
  case Nil
  then show ?case by simp
next
  case (Cons m ms)
  from Cons.prems(2) obtain st1 where 1: "conn_process_msg cd tnow st c m = Inr st1"
    and 2: "process_msgs cd tnow st1 c ms = Inr st'"
    by (auto simp: bnd_Inr_iff)
  from conn_process_msg_accounted[OF Cons.prems(1) 1] have "queue_accounted st1" .
  from Cons.IH[OF this 2] show ?case .
qed

lemma daemon_step_accounted:
  assumes a: "queue_accounted st" and s: "daemon_step cd st e = Inr st'"
  shows "queue_accounted st'"
proof (cases e)
  case (Accept c)
  with s a handle_accepts_queue[of st c] show ?thesis by (auto simp: same_queue_accounted)
next
  case (Input tnow c msgs ok)
  with s obtain st1 where 1: "process_msgs cd tnow st c msgs = Inr st1"
    and 2: "(if ok then Inr st1 else close_conn st1 c) = Inr st'"
    by (auto simp: handle_conn_input_def conn_process_input_def bnd_Inr_iff split: option.splits)
  from process_msgs_accounted[OF a 1] have "queue_accounted st1" .
  with 2 show ?thesis
    by (auto split: if_splits dest!: close_conn_queue simp: same_queue_accounted)
next
  case (Close c)
  with s a show ?thesis by (auto dest!: close_conn_queue simp: same_queue_accounted)
next
  case (Queue tnow)
  with s have "queued_loop tnow (queued_msgs st) 0 st = Inr st'"
    by (simp add: handle_queued_msgs_def)
  from queued_loop_accounted[OF a this] show ?thesis .
qed

lemma daemon_run_accounted:
  "queue_accounted st \<Longrightarrow> daemon_run cd st es = Inr st' \<Longrightarrow> queue_accounted st'"
proof (induction es arbitrary: st)
  case Nil
  then show ?case by simp
next
  case (Cons e es)
  from Cons.prems(2) obtain st1 where 1: "daemon_step cd st e = Inr st1"
    and 2: "daemon_run cd st1 es = Inr st'"
    by (auto simp: bnd_Inr_iff)
  from daemon_step_accounted[OF Cons.prems(1) 1] have "queue_accounted st1" .
  from Cons.IH[OF this 2] show ?case .
qed

lemma init_accounted: "queue_accounted init_structs"
  by (simp add: queue_accounted_def init_structs_def)


lemmas daemon_defs =
  CALLSIGN_LEN_def QUEUED_MSG_TIMEOUT_def sizeof_queued_msg_def lacf_strlcpy_def
  cpdlc_msg_set_from_def cpdlc_msg_get_from_def cpdlc_msg_get_to_def init_structs_def
  handle_accepts_def htbl_set_def conn_remove_from_def close_conn_def conn_send_buf_def
  conn_send_msg_def error_msg_def send_error_msg_def process_logon_msg_def store_msg_def
  dequeue_msg_def handle_queued_msgs_def conn_process_msg_def conn_process_input_def
  handle_conn_input_def entry_bytes_def queue_accounted_def same_queue_def

lemmas daemon_example_defs =
  codec0_def logon_b_def logon_nobody_def plain_msg_def st_b_logged_on_def dm6_req_def
  one_seg_msg_def

lemma st_b_logged_on_reached:
  "daemon_run codec0 init_structs [Accept 1, Input 0 1 [logon_b] True] = Inr st_b_logged_on"
  by (auto simp add: daemon_defs daemon_example_defs msg_defs fun_upd_def Let_def fun_eq_iff)

text \<open>
  C9. In every state the daemon reaches from \<open>init_structs\<close>, the byte counter is the sum
  over the queued messages of the size of the entry, the length of the encoded text and
  1, and it is 0 exactly when the queue is empty. \<open>store_msg\<close> adds that amount for the
  entry it appends, and \<open>dequeue_msg\<close> subtracts the same amount for the entry it
  removes; its two assertions then hold.
\<close>

theorem queue_bytes_accounted:
  "daemon_run cd init_structs es = Inr st \<longrightarrow>
     queued_msg_bytes st = sum_list (map entry_bytes (queued_msgs st)) \<and>
     (queued_msg_bytes st = 0) = (queued_msgs st = []) \<and>
     entry_bytes q = sizeof_queued_msg + length (q_msg q) + 1 \<and>
     (store_msg cd tnow st m to = (st1, True) \<longrightarrow>
        queued_msgs st1 = queued_msgs st @ [last (queued_msgs st1)] \<and>
        q_msg (last (queued_msgs st1)) = encode cd m \<and>
        queued_msg_bytes st1 = queued_msg_bytes st + entry_bytes (last (queued_msgs st1))) \<and>
     (i < length (queued_msgs st) \<longrightarrow>
        (case dequeue_msg st i of
           Inl e \<Rightarrow> False
         | Inr st2 \<Rightarrow>
             queued_msgs st2 = take i (queued_msgs st) @ drop (Suc i) (queued_msgs st) \<and>
             queued_msg_bytes st2 = queued_msg_bytes st - entry_bytes (queued_msgs st ! i) \<and>
             entry_bytes (queued_msgs st ! i) \<le> queued_msg_bytes st))"
proof
  assume "daemon_run cd init_structs es = Inr st"
  from daemon_run_accounted[OF init_accounted this] have a: "queue_accounted st" .
  have d: "case dequeue_msg st i of
           Inl e \<Rightarrow> False
         | Inr st2 \<Rightarrow>
             queued_msgs st2 = take i (queued_msgs st) @ drop (Suc i) (queued_msgs st) \<and>
             queued_msg_bytes st2 = queued_msg_bytes st - entry_bytes (queued_msgs st ! i) \<and>
             entry_bytes (queued_msgs st ! i) \<le> queued_msg_bytes st"
    if i: "i < length (queued_msgs st)"
  proof -
    from dequeue_msg_no_assert[OF a i] obtain st2 where r: "dequeue_msg st i = Inr st2" ..
    from dequeue_msg_accounted[OF a r] r show ?thesis by simp
  qed
  from a accounted_zero_iff[OF a] d
  show "queued_msg_bytes st = sum_list (map entry_bytes (queued_msgs st)) \<and>
     (queued_msg_bytes st = 0) = (queued_msgs st = []) \<and>
     entry_bytes q = sizeof_queued_msg + length (q_msg q) + 1 \<and>
     (store_msg cd tnow st m to = (st1, True) \<longrightarrow>
        queued_msgs st1 = queued_msgs st @ [last (queued_msgs st1)] \<and>
        q_msg (last (queued_msgs st1)) = encode cd m \<and>
        queued_msg_bytes st1 = queued_msg_bytes st + entry_bytes (last (queued_msgs st1))) \<and>
     (i < length (queued_msgs st) \<longrightarrow>
        (case dequeue_msg st i of
           Inl e \<Rightarrow> False
         | Inr st2 \<Rightarrow>
             queued_msgs st2 = take i (queued_msgs st) @ drop (Suc i) (queued_msgs st) \<and>
             queued_msg_bytes st2 = queued_msg_bytes st - entry_bytes (queued_msgs st ! i) \<and>
             entry_bytes (queued_msgs st ! i) \<le> queued_msg_bytes st))"
    by (auto simp: queue_accounted_def entry_bytes_def[of q] dest: store_msg_adds)
qed

theorem queue_bytes_accounted_witness:
  "queued_msg_bytes st_b_logged_on = 84 \<and>
   map entry_bytes (queued_msgs st_b_logged_on) = [84] \<and>
   (case dequeue_msg st_b_logged_on 0 of
      Inl e \<Rightarrow> False
    | Inr st2 \<Rightarrow> queued_msgs st2 = [] \<and> queued_msg_bytes st2 = 0) \<and>
   (case store_msg codec0 5 st_b_logged_on (cpdlc_msg_set_from plain_msg ''B'') ''ATC1'' of
      (st1, ok) \<Rightarrow> ok \<and> length (queued_msgs st1) = 2 \<and> queued_msg_bytes st1 = 84 + 80)"
proof -
  have 1: "0 < length (queued_msgs st_b_logged_on)" by (simp add: st_b_logged_on_def)
  have 2: "store_msg codec0 5 st_b_logged_on (cpdlc_msg_set_from plain_msg ''B'') ''ATC1'' =
      (fst (store_msg codec0 5 st_b_logged_on (cpdlc_msg_set_from plain_msg ''B'') ''ATC1''), True)"
    by (simp add: store_msg_def st_b_logged_on_def daemon_defs daemon_example_defs Let_def)
  from queue_bytes_accounted[of codec0 "[Accept 1, Input 0 1 [logon_b] True]" st_b_logged_on
      "hd (queued_msgs st_b_logged_on)" 5 "cpdlc_msg_set_from plain_msg ''B''" "''ATC1''"
      "fst (store_msg codec0 5 st_b_logged_on (cpdlc_msg_set_from plain_msg ''B'') ''ATC1'')" 0]
    st_b_logged_on_reached 1 2
  show ?thesis
    by (simp add: st_b_logged_on_def daemon_defs daemon_example_defs Let_def msg_defs
        split: sum.splits)
qed


subsection \<open>Replies to a connection that is not logged on\<close>

lemma send_error_msg_result:
  assumes "conns st c = Some conn" "encode cd (error_msg cd orig buf) \<noteq> []"
  shows "send_error_msg cd st c orig buf =
         Inr (st\<lparr>conns := (conns st)(c \<mapsto>
                conn\<lparr>outbuf := outbuf conn @ encode cd (error_msg cd orig buf)\<rparr>)\<rparr>)"
  using assms by (simp add: send_error_msg_def conn_send_msg_def conn_send_buf_def)

lemma handle_one_msg:
  assumes "conns st c = Some conn"
  shows "handle_conn_input cd tnow st c [m] True = conn_process_msg cd tnow st c m"
  using assms
  by (simp add: handle_conn_input_def conn_process_input_def bnd_def split: sum.splits)

text \<open>
  C7, as the code has it. A connection that is not logged on and sends a message that is
  not a logon gets the reply \<open>LOGON REQUIRED\<close> and nothing else changes: the connection
  stays. A logon without \<open>FROM\<close> gets the reply \<open>LOGON REQUIRES FROM= HEADER\<close>, the
  connection stays without a callsign and outside the index, and nothing is queued.
\<close>

theorem logon_errors_keep_connection:
  assumes "conns st c = Some conn" "\<not> logon_complete conn"
  shows "handle_conn_input cd tnow st c [m] True = conn_process_msg cd tnow st c m \<and>
    (\<not> is_logon m \<longrightarrow> encode cd (error_msg cd (Some m) ''LOGON REQUIRED'') \<noteq> [] \<longrightarrow>
       conn_process_msg cd tnow st c m =
       Inr (st\<lparr>conns := (conns st)(c \<mapsto>
              conn\<lparr>outbuf := outbuf conn @
                       encode cd (error_msg cd (Some m) ''LOGON REQUIRED'')\<rparr>)\<rparr>)) \<and>
    (is_logon m \<longrightarrow> msg_from m = [] \<longrightarrow>
     encode cd (error_msg cd (Some m) ''LOGON REQUIRES FROM= HEADER'') \<noteq> [] \<longrightarrow>
       (case conn_process_msg cd tnow st c m of
          Inl e \<Rightarrow> False
        | Inr st' \<Rightarrow>
            (case conns st' c of
               None \<Rightarrow> False
             | Some conn' \<Rightarrow>
                 outbuf conn' = outbuf conn @
                   encode cd (error_msg cd (Some m) ''LOGON REQUIRES FROM= HEADER'') \<and>
                 conn_from conn' = []) \<and>
            (\<forall>c'. c' \<noteq> c \<longrightarrow> conns st' c' = conns st c') \<and>
            conns_by_from st' = conns_by_from st \<and> same_queue st st'))"
proof (intro conjI impI)
  show "handle_conn_input cd tnow st c [m] True = conn_process_msg cd tnow st c m"
    by (rule handle_one_msg[OF assms(1)])
next
  assume "\<not> is_logon m" "encode cd (error_msg cd (Some m) ''LOGON REQUIRED'') \<noteq> []"
  with assms send_error_msg_result[OF assms(1), of cd "Some m" "''LOGON REQUIRED''"]
  show "conn_process_msg cd tnow st c m =
       Inr (st\<lparr>conns := (conns st)(c \<mapsto>
              conn\<lparr>outbuf := outbuf conn @
                       encode cd (error_msg cd (Some m) ''LOGON REQUIRED'')\<rparr>)\<rparr>)"
    by (simp add: conn_process_msg_def)
next
  let ?conn2 = "conn\<lparr>logon_complete := True,
                     conn_to := lacf_strlcpy (cpdlc_msg_get_to m) CALLSIGN_LEN,
                     conn_from := lacf_strlcpy (cpdlc_msg_get_from m) CALLSIGN_LEN\<rparr>"
  let ?st2 = "st\<lparr>conns := (conns st)(c \<mapsto> ?conn2)\<rparr>"
  assume l: "is_logon m" and f: "msg_from m = []"
    and e: "encode cd (error_msg cd (Some m) ''LOGON REQUIRES FROM= HEADER'') \<noteq> []"
  have c2: "conns ?st2 c = Some ?conn2" by simp
  have "process_logon_msg cd st c m =
        bnd (send_error_msg cd ?st2 c (Some m) ''LOGON REQUIRES FROM= HEADER'')
          (\<lambda>st3. Inr (st3, False))"
    using assms f
    by (simp add: process_logon_msg_def bnd_def Let_def lacf_strlcpy_def cpdlc_msg_get_from_def)
  with send_error_msg_result[OF c2 e] l assms
  have "conn_process_msg cd tnow st c m =
        Inr (?st2\<lparr>conns := (conns ?st2)(c \<mapsto>
              ?conn2\<lparr>outbuf := outbuf ?conn2 @
                 encode cd (error_msg cd (Some m) ''LOGON REQUIRES FROM= HEADER'')\<rparr>)\<rparr>)"
    by (simp add: conn_process_msg_def bnd_def)
  then show "case conn_process_msg cd tnow st c m of
          Inl e \<Rightarrow> False
        | Inr st' \<Rightarrow>
            (case conns st' c of
               None \<Rightarrow> False
             | Some conn' \<Rightarrow>
                 outbuf conn' = outbuf conn @
                   encode cd (error_msg cd (Some m) ''LOGON REQUIRES FROM= HEADER'') \<and>
                 conn_from conn' = []) \<and>
            (\<forall>c'. c' \<noteq> c \<longrightarrow> conns st' c' = conns st c') \<and>
            conns_by_from st' = conns_by_from st \<and> same_queue st st'"
    using f by (simp add: same_queue_def lacf_strlcpy_def cpdlc_msg_get_from_def)
qed

theorem logon_errors_keep_connection_witness:
  "handle_conn_input codec0 0 (handle_accepts init_structs 1) 1 [plain_msg] True =
     Inr (init_structs\<lparr>conns := (\<lambda>_. None)(1 \<mapsto>
            \<lparr>conn_from = [], conn_to = [], logon_complete = False,
              outbuf = ''FROM= TO= MSG=LOGON REQUIRED''\<rparr>)\<rparr>) \<and>
   (case handle_conn_input codec0 0 (handle_accepts init_structs 1) 1 [logon_nobody] True of
      Inl e \<Rightarrow> False
    | Inr st' \<Rightarrow>
        map_option outbuf (conns st' 1) = Some ''FROM= TO= MSG=LOGON REQUIRES FROM= HEADER'' \<and>
        map_option conn_from (conns st' 1) = Some [] \<and>
        conns_by_from st' = (\<lambda>_. []) \<and> queued_msgs st' = [])"
proof -
  let ?st = "handle_accepts init_structs 1"
  let ?conn = "\<lparr>conn_from = [], conn_to = [], logon_complete = False, outbuf = []\<rparr>"
  have 1: "conns ?st 1 = Some ?conn" "\<not> logon_complete ?conn"
    by (simp_all add: handle_accepts_def init_structs_def)
  have 2: "\<not> is_logon plain_msg" "is_logon logon_nobody" "msg_from logon_nobody = []"
    "encode codec0 (error_msg codec0 (Some plain_msg) ''LOGON REQUIRED'') =
       ''FROM= TO= MSG=LOGON REQUIRED''"
    "encode codec0 (error_msg codec0 (Some logon_nobody) ''LOGON REQUIRES FROM= HEADER'') =
       ''FROM= TO= MSG=LOGON REQUIRES FROM= HEADER''"
    by (simp_all add: daemon_defs daemon_example_defs msg_defs)
  from logon_errors_keep_connection[OF 1, of codec0 0 plain_msg]
    logon_errors_keep_connection[OF 1, of codec0 0 logon_nobody] 1 2
  show ?thesis
    by (auto simp add: handle_accepts_def init_structs_def same_queue_def fun_eq_iff
        split: sum.splits option.splits)
qed

text \<open>
  C7 as stated fails in its first half: after the reply \<open>LOGON REQUIRED\<close> the connection
  is not closed. It is still in the tree when the input has been handled, and the logon
  that follows on it succeeds.
\<close>

theorem logon_required_closes_counterexample:
  "(case daemon_run codec0 init_structs [Accept 1, Input 0 1 [plain_msg] True] of
      Inl e \<Rightarrow> False
    | Inr st' \<Rightarrow>
        conns st' 1 = Some \<lparr>conn_from = [], conn_to = [], logon_complete = False,
                             outbuf = ''FROM= TO= MSG=LOGON REQUIRED''\<rparr>) \<and>
   (case daemon_run codec0 init_structs
           [Accept 1, Input 0 1 [plain_msg] True, Input 1 1 [logon_b] True] of
      Inl e \<Rightarrow> False
    | Inr st' \<Rightarrow>
        conns st' 1 = Some \<lparr>conn_from = ''B'', conn_to = ''ATC1'', logon_complete = True,
                             outbuf = ''FROM= TO= MSG=LOGON REQUIRED''\<rparr> \<and>
        conns_by_from st' ''B'' = [1])"
  by (simp add: daemon_defs daemon_example_defs msg_defs Let_def bnd_def)


subsection \<open>The callsign index\<close>

text \<open>
  C6. A connection that is not logged on sends a logon without \<open>FROM\<close>.
  \<open>process_logon_msg\<close> sets \<open>logon_complete\<close> before it looks at the callsign, and
  returns without an entry in the index and without taking the flag back. The daemon is
  then in a state with a live connection whose flag is set, whose callsign is empty and
  which no entry of the index holds. In that state the next message of the connection
  fails the assertion on the callsign in \<open>conn_process_msg\<close>, and closing the connection
  or a second logon fails the assertion on the list in \<open>conn_remove_from\<close>.
\<close>

theorem logon_without_from_sets_flag:
  "(case daemon_run codec0 init_structs [Accept 1, Input 0 1 [logon_nobody] True] of
      Inl e \<Rightarrow> False
    | Inr st' \<Rightarrow>
        conns st' 1 = Some \<lparr>conn_from = [], conn_to = ''ATC1'', logon_complete = True,
                             outbuf = ''FROM= TO= MSG=LOGON REQUIRES FROM= HEADER''\<rparr> \<and>
        conns_by_from st' = (\<lambda>_. []) \<and>
        daemon_step codec0 st' (Input 1 1 [plain_msg] True) = Inl AssertFail \<and>
        daemon_step codec0 st' (Input 1 1 [logon_b] True) = Inl AssertFail \<and>
        daemon_step codec0 st' (Close 1) = Inl AssertFail)"
  by (simp add: daemon_defs daemon_example_defs msg_defs Let_def bnd_def)


subsection \<open>Routing\<close>

lemma send_buf_all_result:
  assumes "buf \<noteq> []"
  shows "\<forall>t \<in> set l. conns st t \<noteq> None \<Longrightarrow>
    send_buf_all st l buf =
    Inr (st\<lparr>conns := (\<lambda>c'. map_option
           (\<lambda>x. x\<lparr>outbuf := outbuf x @ concat (replicate (count_list l c') buf)\<rparr>)
           (conns st c'))\<rparr>)"
proof (induction l arbitrary: st)
  case Nil
  have "(\<lambda>c'. map_option (\<lambda>x. x\<lparr>outbuf := outbuf x\<rparr>) (conns st c')) = conns st"
    by (rule ext) (simp add: option.map_ident)
  then show ?case by simp
next
  case (Cons a l)
  from Cons.prems obtain conn where a: "conns st a = Some conn" by auto
  let ?st1 = "st\<lparr>conns := (conns st)(a \<mapsto> conn\<lparr>outbuf := outbuf conn @ buf\<rparr>)\<rparr>"
  have 1: "conn_send_buf st a buf = Inr ?st1"
    using a assms by (simp add: conn_send_buf_def)
  have 2: "\<forall>t \<in> set l. conns ?st1 t \<noteq> None" using Cons.prems by simp
  have 3: "(\<lambda>c'. map_option
           (\<lambda>x. x\<lparr>outbuf := outbuf x @ concat (replicate (count_list l c') buf)\<rparr>)
           (conns ?st1 c')) =
        (\<lambda>c'. map_option
           (\<lambda>x. x\<lparr>outbuf := outbuf x @ concat (replicate (count_list (a # l) c') buf)\<rparr>)
           (conns st c'))"
    using a by (auto simp: fun_eq_iff)
  show ?case
    unfolding send_buf_all.simps 1 bnd_def sum.case Cons.IH[OF 2] 3[symmetric] by simp
qed

lemma strlcpy_twice: "lacf_strlcpy (lacf_strlcpy s n) n = lacf_strlcpy s n"
  by (simp add: lacf_strlcpy_def)


subsection \<open>The index holds live, logged-on connections\<close>

lemma index_okD:
  assumes "index_ok st" "t \<in> set (conns_by_from st k)"
  shows "k \<noteq> []" "\<exists>tc. conns st t = Some tc \<and> logon_complete tc \<and> conn_from tc = k"
  using assms by (auto simp: index_ok_def)

lemma index_ok_distinct: "index_ok st \<Longrightarrow> distinct (conns_by_from st k)"
  by (simp add: index_ok_def)

lemma index_okI:
  assumes "\<And>k. distinct (conns_by_from st k)"
    and "\<And>k t. t \<in> set (conns_by_from st k) \<Longrightarrow>
           k \<noteq> [] \<and> (\<exists>tc. conns st t = Some tc \<and> logon_complete tc \<and> conn_from tc = k)"
  shows "index_ok st"
  using assms unfolding index_ok_def by blast

lemma index_ok_init: "index_ok init_structs"
  by (simp add: index_ok_def init_structs_def)

lemma index_ok_not_member:
  assumes "index_ok st" "conns st c = None \<or> (\<exists>conn. conns st c = Some conn \<and> \<not> logon_complete conn)"
  shows "c \<notin> set (conns_by_from st k)"
  using assms index_okD(2)[of st c k] by auto

lemma index_ok_conn_upd:
  assumes ok: "index_ok st" and c: "conns st c = Some conn"
    and same: "logon_complete conn' = logon_complete conn" "conn_from conn' = conn_from conn"
  shows "index_ok (st\<lparr>conns := (conns st)(c \<mapsto> conn')\<rparr>)"
proof (rule index_okI)
  fix k show "distinct (conns_by_from (st\<lparr>conns := (conns st)(c \<mapsto> conn')\<rparr>) k)"
    using index_ok_distinct[OF ok] by simp
next
  fix k t assume "t \<in> set (conns_by_from (st\<lparr>conns := (conns st)(c \<mapsto> conn')\<rparr>) k)"
  then have t: "t \<in> set (conns_by_from st k)" by simp
  from index_okD[OF ok t] c same
  show "k \<noteq> [] \<and> (\<exists>tc. conns (st\<lparr>conns := (conns st)(c \<mapsto> conn')\<rparr>) t = Some tc \<and>
          logon_complete tc \<and> conn_from tc = k)"
    by (cases "t = c") auto
qed

lemma conn_send_buf_index:
  assumes "index_ok st" "conn_send_buf st c buf = Inr st'"
  shows "index_ok st'"
proof -
  from assms(2) obtain conn where c: "conns st c = Some conn"
    and st': "st' = st\<lparr>conns := (conns st)(c \<mapsto> conn\<lparr>outbuf := outbuf conn @ buf\<rparr>)\<rparr>"
    by (auto simp: conn_send_buf_def split: option.splits if_splits)
  from index_ok_conn_upd[OF assms(1) c, of "conn\<lparr>outbuf := outbuf conn @ buf\<rparr>"] st'
  show ?thesis by simp
qed

lemma send_buf_all_index:
  "index_ok st \<Longrightarrow> send_buf_all st cs buf = Inr st' \<Longrightarrow> index_ok st'"
proof (induction cs arbitrary: st)
  case Nil
  then show ?case by simp
next
  case (Cons c cs)
  from Cons.prems(2) obtain st1 where 1: "conn_send_buf st c buf = Inr st1"
    and 2: "send_buf_all st1 cs buf = Inr st'"
    by (auto simp: bnd_Inr_iff)
  from Cons.IH[OF conn_send_buf_index[OF Cons.prems(1) 1] 2] show ?case .
qed

lemma send_error_msg_index:
  "index_ok st \<Longrightarrow> send_error_msg cd st c orig txt = Inr st' \<Longrightarrow> index_ok st'"
  unfolding send_error_msg_def conn_send_msg_def by (rule conn_send_buf_index)

lemma handle_accepts_index:
  assumes ok: "index_ok st"
  shows "index_ok (handle_accepts st c)"
proof (cases "conns st c")
  case (Some a)
  with ok show ?thesis by (simp add: handle_accepts_def)
next
  case None
  let ?n = "\<lparr>conn_from = [], conn_to = [], logon_complete = False, outbuf = []\<rparr>"
  have "index_ok (st\<lparr>conns := (conns st)(c \<mapsto> ?n)\<rparr>)"
  proof (rule index_okI)
    fix k show "distinct (conns_by_from (st\<lparr>conns := (conns st)(c \<mapsto> ?n)\<rparr>) k)"
      using index_ok_distinct[OF ok] by simp
  next
    fix k t assume "t \<in> set (conns_by_from (st\<lparr>conns := (conns st)(c \<mapsto> ?n)\<rparr>) k)"
    then have t: "t \<in> set (conns_by_from st k)" by simp
    with index_ok_not_member[OF ok, of c k] None have "t \<noteq> c" by auto
    with index_okD[OF ok t]
    show "k \<noteq> [] \<and> (\<exists>tc. conns (st\<lparr>conns := (conns st)(c \<mapsto> ?n)\<rparr>) t = Some tc \<and>
            logon_complete tc \<and> conn_from tc = k)"
      by auto
  qed
  with None show ?thesis by (simp add: handle_accepts_def)
qed

lemma conn_remove_from_index:
  assumes ok: "index_ok st" and r: "conn_remove_from st c = Inr st'"
  shows "index_ok st' \<and> (\<exists>conn'. conns st' c = Some conn' \<and> \<not> logon_complete conn')"
proof -
  from r obtain conn where c: "conns st c = Some conn" and lc: "logon_complete conn"
    and st': "st' = st\<lparr>conns_by_from := (conns_by_from st)
                         (conn_from conn := remove1 c (conns_by_from st (conn_from conn))),
                       conns := (conns st)(c \<mapsto> conn\<lparr>logon_complete := False,
                                                         conn_from := []\<rparr>)\<rparr>"
    by (auto simp: conn_remove_from_def split: option.splits if_splits)
  have "index_ok st'"
  proof (rule index_okI)
    fix k show "distinct (conns_by_from st' k)"
      using index_ok_distinct[OF ok] by (simp add: st')
  next
    fix k t assume t': "t \<in> set (conns_by_from st' k)"
    have t: "t \<in> set (conns_by_from st k) \<and> t \<noteq> c"
    proof (cases "k = conn_from conn")
      case True
      with t' index_ok_distinct[OF ok, of k] show ?thesis by (simp add: st')
    next
      case False
      with t' have m: "t \<in> set (conns_by_from st k)" by (simp add: st')
      from index_okD(2)[OF ok m] c False have "t \<noteq> c" by auto
      with m show ?thesis by simp
    qed
    with index_okD[OF ok, of t k]
    show "k \<noteq> [] \<and> (\<exists>tc. conns st' t = Some tc \<and> logon_complete tc \<and> conn_from tc = k)"
      by (simp add: st')
  qed
  then show ?thesis by (simp add: st')
qed

lemma close_conn_index:
  assumes ok: "index_ok st" and r: "close_conn st c = Inr st'"
  shows "index_ok st'"
proof -
  from r obtain conn st1 where c: "conns st c = Some conn"
    and 1: "(if logon_complete conn then conn_remove_from st c else Inr st) = Inr st1"
    and st': "st' = st1\<lparr>conns := (conns st1)(c := None)\<rparr>"
    by (auto simp: close_conn_def bnd_Inr_iff split: option.splits)
  have ok1: "index_ok st1" and n1: "\<exists>conn'. conns st1 c = Some conn' \<and> \<not> logon_complete conn'"
    using 1 ok c conn_remove_from_index[OF ok, of c st1] by (auto split: if_splits)
  show ?thesis
  proof (rule index_okI)
    fix k show "distinct (conns_by_from st' k)"
      using index_ok_distinct[OF ok1] by (simp add: st')
  next
    fix k t assume "t \<in> set (conns_by_from st' k)"
    then have t: "t \<in> set (conns_by_from st1 k)" by (simp add: st')
    with index_ok_not_member[OF ok1, of c k] n1 have "t \<noteq> c" by auto
    with index_okD[OF ok1 t]
    show "k \<noteq> [] \<and> (\<exists>tc. conns st' t = Some tc \<and> logon_complete tc \<and> conn_from tc = k)"
      by (simp add: st')
  qed
qed

lemma process_logon_msg_index:
  assumes ok: "index_ok st" and r: "process_logon_msg cd st c m = Inr (st', b)"
  shows "index_ok st'"
proof -
  from r obtain conn0 where c0: "conns st c = Some conn0"
    by (auto simp: process_logon_msg_def split: option.splits)
  with r obtain st1 where 1: "(if logon_complete conn0 then conn_remove_from st c else Inr st) = Inr st1"
    by (auto simp: process_logon_msg_def bnd_Inr_iff)
  have ok1: "index_ok st1" and n1: "\<exists>conn'. conns st1 c = Some conn' \<and> \<not> logon_complete conn'"
    using 1 ok c0 conn_remove_from_index[OF ok, of c st1] by (auto split: if_splits)
  from n1 obtain conn1 where c1: "conns st1 c = Some conn1" and nl: "\<not> logon_complete conn1"
    by auto
  let ?conn2 = "conn1\<lparr>logon_complete := True,
                     conn_to := lacf_strlcpy (cpdlc_msg_get_to m) CALLSIGN_LEN,
                     conn_from := lacf_strlcpy (cpdlc_msg_get_from m) CALLSIGN_LEN\<rparr>"
  let ?st2 = "st1\<lparr>conns := (conns st1)(c \<mapsto> ?conn2)\<rparr>"
  have nm: "c \<notin> set (conns_by_from st1 k)" for k
    using index_ok_not_member[OF ok1, of c k] c1 nl by auto
  have ok2: "index_ok ?st2"
  proof (rule index_okI)
    fix k show "distinct (conns_by_from ?st2 k)"
      using index_ok_distinct[OF ok1] by simp
  next
    fix k t assume "t \<in> set (conns_by_from ?st2 k)"
    then have t: "t \<in> set (conns_by_from st1 k)" by simp
    with nm[of k] have "t \<noteq> c" by auto
    with index_okD[OF ok1 t]
    show "k \<noteq> [] \<and> (\<exists>tc. conns ?st2 t = Some tc \<and> logon_complete tc \<and> conn_from tc = k)"
      by simp
  qed
  show ?thesis
  proof (cases "conn_from ?conn2 = []")
    case True
    with r c0 1 c1 have "send_error_msg cd ?st2 c (Some m) ''LOGON REQUIRES FROM= HEADER'' = Inr st'"
      by (auto simp: process_logon_msg_def Let_def bnd_Inr_iff)
    from send_error_msg_index[OF ok2 this] show ?thesis .
  next
    case False
    with r c0 1 c1 have st': "st' = htbl_set ?st2 (conn_from ?conn2) c"
      by (auto simp: process_logon_msg_def Let_def bnd_Inr_iff)
    show ?thesis
    proof (rule index_okI)
      fix k show "distinct (conns_by_from st' k)"
        using index_ok_distinct[OF ok1] nm by (simp add: st' htbl_set_def)
    next
      fix k t assume t': "t \<in> set (conns_by_from st' k)"
      show "k \<noteq> [] \<and> (\<exists>tc. conns st' t = Some tc \<and> logon_complete tc \<and> conn_from tc = k)"
      proof (cases "t = c")
        case True
        with t' nm[of k] have "k = conn_from ?conn2"
          by (auto simp: st' htbl_set_def split: if_splits)
        with True False show ?thesis by (simp add: st' htbl_set_def)
      next
        case False
        with t' have t: "t \<in> set (conns_by_from ?st2 k)"
          by (auto simp: st' htbl_set_def split: if_splits)
        from index_okD[OF ok2 t] show ?thesis by (simp add: st' htbl_set_def)
      qed
    qed
  qed
qed

lemma index_ok_queue_upd:
  assumes "index_ok st" "conns st' = conns st" "conns_by_from st' = conns_by_from st"
  shows "index_ok st'"
  using assms by (simp add: index_ok_def)

lemma store_msg_index:
  assumes "index_ok st"
  shows "index_ok (fst (store_msg cd tnow st m to))"
  by (rule index_ok_queue_upd[OF assms]) (simp_all add: store_msg_def Let_def)

lemma dequeue_msg_index:
  assumes "index_ok st" "dequeue_msg st i = Inr st'"
  shows "index_ok st'"
  using assms(2)
  by (intro index_ok_queue_upd[OF assms(1)])
     (auto simp: dequeue_msg_def Let_def split: if_splits)

lemma queued_loop_index:
  "index_ok st \<Longrightarrow> queued_loop tnow qs i st = Inr st' \<Longrightarrow> index_ok st'"
proof (induction qs arbitrary: i st)
  case Nil
  then show ?case by simp
next
  case (Cons q rest)
  let ?l = "conns_by_from st (q_to q)"
  consider (send) "?l \<noteq> []" | (old) "?l = []" "tnow - created q > QUEUED_MSG_TIMEOUT"
    | (keep) "?l = []" "\<not> tnow - created q > QUEUED_MSG_TIMEOUT" by blast
  then show ?case
  proof cases
    case send
    with Cons.prems(2) obtain st1 st2 where 1: "send_buf_all st ?l (q_msg q) = Inr st1"
      and 2: "dequeue_msg st1 i = Inr st2" and 3: "queued_loop tnow rest i st2 = Inr st'"
      by (auto simp: bnd_Inr_iff)
    from Cons.IH[OF dequeue_msg_index[OF send_buf_all_index[OF Cons.prems(1) 1] 2] 3]
    show ?thesis .
  next
    case old
    with Cons.prems(2) obtain st2 where 2: "dequeue_msg st i = Inr st2"
      and 3: "queued_loop tnow rest i st2 = Inr st'"
      by (auto simp: bnd_Inr_iff)
    from Cons.IH[OF dequeue_msg_index[OF Cons.prems(1) 2] 3] show ?thesis .
  next
    case keep
    with Cons.prems(2) have "queued_loop tnow rest (Suc i) st = Inr st'" by simp
    from Cons.IH[OF Cons.prems(1) this] show ?thesis .
  qed
qed

lemma conn_process_msg_index:
  assumes ok: "index_ok st" and r: "conn_process_msg cd tnow st c m = Inr st'"
  shows "index_ok st'"
proof -
  from r obtain conn0 where c0: "conns st c = Some conn0"
    by (auto simp: conn_process_msg_def split: option.splits)
  show ?thesis
  proof (cases "\<not> logon_complete conn0 \<and> \<not> is_logon m")
    case True
    with r c0 have "send_error_msg cd st c (Some m) ''LOGON REQUIRED'' = Inr st'"
      by (simp add: conn_process_msg_def)
    from send_error_msg_index[OF ok this] show ?thesis .
  next
    case False
    with r c0 obtain st1 b where 1:
      "(if is_logon m then process_logon_msg cd st c m else Inr (st, True)) = Inr (st1, b)"
      by (auto simp: conn_process_msg_def bnd_Inr_iff)
    then have ok1: "index_ok st1"
      using ok process_logon_msg_index[OF ok, of cd c m st1 b] by (auto split: if_splits)
    show ?thesis
    proof (cases b)
      case False
      with r c0 1 \<open>\<not> (\<not> logon_complete conn0 \<and> \<not> is_logon m)\<close> have "st' = st1"
        by (auto simp: conn_process_msg_def bnd_def)
      with ok1 show ?thesis by simp
    next
      case True
      with r c0 1 \<open>\<not> (\<not> logon_complete conn0 \<and> \<not> is_logon m)\<close>
      obtain conn where c1: "conns st1 c = Some conn"
        by (auto simp: conn_process_msg_def bnd_def split: option.splits)
      let ?to = "if msg_to m \<noteq> [] then lacf_strlcpy (msg_to m) CALLSIGN_LEN
                 else lacf_strlcpy (conn_to conn) CALLSIGN_LEN"
      let ?m1 = "cpdlc_msg_set_from m (conn_from conn)"
      let ?l = "conns_by_from st1 ?to"
      let ?s = "store_msg cd tnow st1 ?m1 ?to"
      have eq: "conn_process_msg cd tnow st c m =
          (if msg_to m = [] \<and> conn_to conn = [] then
             send_error_msg cd st1 c (Some m) ''MESSAGE MISSING TO= HEADER''
           else if conn_from conn = [] then Inl AssertFail
           else if ?l = [] then
             (case ?s of
                (st2, True) \<Rightarrow> Inr st2
              | (st2, False) \<Rightarrow> send_error_msg cd st2 c (Some ?m1) ''TOO MANY QUEUED MESSAGES'')
           else send_buf_all st1 ?l (encode cd ?m1))"
      proof -
        from \<open>\<not> (\<not> logon_complete conn0 \<and> \<not> is_logon m)\<close>
        have nn: "(\<not> logon_complete conn0 \<and> \<not> is_logon m) = False" by simp
        show ?thesis
          unfolding conn_process_msg_def c0 option.case nn if_False 1
          using True c1 by (simp add: bnd_def Let_def)
      qed
      show ?thesis
      proof (cases "msg_to m = [] \<and> conn_to conn = []")
        case True
        with r eq have "send_error_msg cd st1 c (Some m) ''MESSAGE MISSING TO= HEADER'' = Inr st'"
          by simp
        from send_error_msg_index[OF ok1 this] show ?thesis .
      next
        case noto: False
        with r eq have nf: "conn_from conn \<noteq> []" by auto
        show ?thesis
        proof (cases "?l = []")
          case False
          with r eq noto nf have "send_buf_all st1 ?l (encode cd ?m1) = Inr st'" by simp
          from send_buf_all_index[OF ok1 this] show ?thesis .
        next
          case True
          obtain st2 b2 where s: "?s = (st2, b2)" by (cases ?s)
          then have st2: "st2 = fst ?s" by simp
          have ok2: "index_ok st2" unfolding st2 by (rule store_msg_index[OF ok1])
          show ?thesis
          proof (cases b2)
            case True
            with r eq noto nf \<open>?l = []\<close> s have "st' = st2" by simp
            with ok2 show ?thesis by simp
          next
            case False
            with r eq noto nf \<open>?l = []\<close> s
            have "send_error_msg cd st2 c (Some ?m1) ''TOO MANY QUEUED MESSAGES'' = Inr st'"
              by simp
            from send_error_msg_index[OF ok2 this] show ?thesis .
          qed
        qed
      qed
    qed
  qed
qed

lemma process_msgs_index:
  "index_ok st \<Longrightarrow> process_msgs cd tnow st c ms = Inr st' \<Longrightarrow> index_ok st'"
proof (induction ms arbitrary: st)
  case Nil
  then show ?case by simp
next
  case (Cons m ms)
  from Cons.prems(2) obtain st1 where 1: "conn_process_msg cd tnow st c m = Inr st1"
    and 2: "process_msgs cd tnow st1 c ms = Inr st'"
    by (auto simp: bnd_Inr_iff)
  from Cons.IH[OF conn_process_msg_index[OF Cons.prems(1) 1] 2] show ?case .
qed

lemma daemon_step_index:
  assumes ok: "index_ok st" and r: "daemon_step cd st e = Inr st'"
  shows "index_ok st'"
proof (cases e)
  case (Accept c)
  with r handle_accepts_index[OF ok, of c] show ?thesis by simp
next
  case (Input tnow c msgs decode_ok)
  with r obtain st1 where 1: "process_msgs cd tnow st c msgs = Inr st1"
    and 2: "st' = st1 \<or> close_conn st1 c = Inr st'"
    by (auto simp: handle_conn_input_def conn_process_input_def bnd_Inr_iff
        split: option.splits if_splits)
  from process_msgs_index[OF ok 1] 2 close_conn_index show ?thesis by blast
next
  case (Close c)
  with r close_conn_index[OF ok] show ?thesis by simp
next
  case (Queue tnow)
  with r queued_loop_index[OF ok] show ?thesis by (simp add: handle_queued_msgs_def)
qed

lemma daemon_run_index:
  "index_ok st \<Longrightarrow> daemon_run cd st es = Inr st' \<Longrightarrow> index_ok st'"
proof (induction es arbitrary: st)
  case Nil
  then show ?case by simp
next
  case (Cons e es)
  from Cons.prems(2) obtain st1 where 1: "daemon_step cd st e = Inr st1"
    and 2: "daemon_run cd st1 es = Inr st'"
    by (auto simp: bnd_Inr_iff)
  from Cons.IH[OF daemon_step_index[OF Cons.prems(1) 1] 2] show ?case .
qed



subsection \<open>Logged-on connections are in the index\<close>

lemma index_completeD:
  assumes "index_complete st" "conns st t = Some tc" "logon_complete tc" "conn_from tc \<noteq> []"
  shows "t \<in> set (conns_by_from st (conn_from tc))"
  using assms unfolding index_complete_def by blast

lemma index_completeI:
  assumes "\<And>t tc. conns st t = Some tc \<Longrightarrow> logon_complete tc \<Longrightarrow> conn_from tc \<noteq> [] \<Longrightarrow>
             t \<in> set (conns_by_from st (conn_from tc))"
  shows "index_complete st"
  using assms unfolding index_complete_def by blast

lemma index_complete_init: "index_complete init_structs"
  by (simp add: index_complete_def init_structs_def)

lemma conn_send_buf_complete:
  assumes ok: "index_complete st" and r: "conn_send_buf st c buf = Inr st'"
  shows "index_complete st'"
proof -
  from r obtain conn where c: "conns st c = Some conn"
    and st': "st' = st\<lparr>conns := (conns st)(c \<mapsto> conn\<lparr>outbuf := outbuf conn @ buf\<rparr>)\<rparr>"
    by (auto simp: conn_send_buf_def split: option.splits if_splits)
  show ?thesis
  proof (rule index_completeI)
    fix t tc assume a: "conns st' t = Some tc" "logon_complete tc" "conn_from tc \<noteq> []"
    show "t \<in> set (conns_by_from st' (conn_from tc))"
    proof (cases "t = c")
      case True
      with a st' have "tc = conn\<lparr>outbuf := outbuf conn @ buf\<rparr>" by simp
      with a True index_completeD[OF ok c] show ?thesis by (auto simp: st')
    next
      case False
      with a st' have "conns st t = Some tc" by simp
      from index_completeD[OF ok this a(2,3)] show ?thesis by (simp add: st')
    qed
  qed
qed

lemma send_buf_all_complete:
  "index_complete st \<Longrightarrow> send_buf_all st cs buf = Inr st' \<Longrightarrow> index_complete st'"
proof (induction cs arbitrary: st)
  case Nil
  then show ?case by simp
next
  case (Cons c cs)
  from Cons.prems(2) obtain st1 where 1: "conn_send_buf st c buf = Inr st1"
    and 2: "send_buf_all st1 cs buf = Inr st'"
    by (auto simp: bnd_Inr_iff)
  from Cons.IH[OF conn_send_buf_complete[OF Cons.prems(1) 1] 2] show ?case .
qed

lemma send_error_msg_complete:
  "index_complete st \<Longrightarrow> send_error_msg cd st c orig txt = Inr st' \<Longrightarrow> index_complete st'"
  unfolding send_error_msg_def conn_send_msg_def by (rule conn_send_buf_complete)

lemma handle_accepts_complete:
  assumes ok: "index_complete st"
  shows "index_complete (handle_accepts st c)"
proof (cases "conns st c")
  case (Some a)
  with ok show ?thesis by (simp add: handle_accepts_def)
next
  case None
  show ?thesis
  proof (rule index_completeI)
    fix t tc assume a: "conns (handle_accepts st c) t = Some tc" "logon_complete tc"
      "conn_from tc \<noteq> []"
    with None have "t \<noteq> c" by (auto simp: handle_accepts_def)
    with a None have "conns st t = Some tc" by (simp add: handle_accepts_def)
    from index_completeD[OF ok this a(2,3)] None
    show "t \<in> set (conns_by_from (handle_accepts st c) (conn_from tc))"
      by (simp add: handle_accepts_def)
  qed
qed

lemma conn_remove_from_result:
  assumes "conn_remove_from st c = Inr st'"
  obtains conn where "conns st c = Some conn" "logon_complete conn"
    "conns_by_from st (conn_from conn) \<noteq> []"
    "st' = st\<lparr>conns_by_from := (conns_by_from st)
               (conn_from conn := remove1 c (conns_by_from st (conn_from conn))),
             conns := (conns st)(c \<mapsto> conn\<lparr>logon_complete := False, conn_from := []\<rparr>)\<rparr>"
  using assms by (auto simp: conn_remove_from_def split: option.splits if_splits)

text \<open>Completeness for all connections but \<open>c\<close>, which is what a logon passes through.\<close>

lemma conn_remove_from_others:
  assumes ok: "index_complete st" and r: "conn_remove_from st c = Inr st'"
    and a: "conns st' t = Some tc" "logon_complete tc" "conn_from tc \<noteq> []"
  shows "t \<noteq> c \<and> t \<in> set (conns_by_from st' (conn_from tc))"
proof -
  from r obtain conn where c: "conns st c = Some conn"
    and st': "st' = st\<lparr>conns_by_from := (conns_by_from st)
               (conn_from conn := remove1 c (conns_by_from st (conn_from conn))),
             conns := (conns st)(c \<mapsto> conn\<lparr>logon_complete := False, conn_from := []\<rparr>)\<rparr>"
    by (rule conn_remove_from_result)
  from a st' have ne: "t \<noteq> c" by auto
  with a st' have "conns st t = Some tc" by simp
  from index_completeD[OF ok this a(2,3)] ne
  show ?thesis by (auto simp: st')
qed

lemma conn_remove_from_complete:
  assumes "index_complete st" "conn_remove_from st c = Inr st'"
  shows "index_complete st'"
  using conn_remove_from_others[OF assms] by (intro index_completeI) blast

lemma close_conn_complete:
  assumes ok: "index_complete st" and r: "close_conn st c = Inr st'"
  shows "index_complete st'"
proof -
  from r obtain conn st1 where c: "conns st c = Some conn"
    and 1: "(if logon_complete conn then conn_remove_from st c else Inr st) = Inr st1"
    and st': "st' = st1\<lparr>conns := (conns st1)(c := None)\<rparr>"
    by (auto simp: close_conn_def bnd_Inr_iff split: option.splits)
  have ok1: "index_complete st1"
    using 1 ok conn_remove_from_complete[OF ok, of c st1] by (auto split: if_splits)
  show ?thesis
  proof (rule index_completeI)
    fix t tc assume a: "conns st' t = Some tc" "logon_complete tc" "conn_from tc \<noteq> []"
    with st' have "t \<noteq> c" by auto
    with a st' have "conns st1 t = Some tc" by simp
    from index_completeD[OF ok1 this a(2,3)]
    show "t \<in> set (conns_by_from st' (conn_from tc))" by (simp add: st')
  qed
qed

lemma process_logon_msg_complete:
  assumes ok: "index_complete st" and r: "process_logon_msg cd st c m = Inr (st', b)"
  shows "index_complete st'"
proof -
  from r obtain conn0 where c0: "conns st c = Some conn0"
    by (auto simp: process_logon_msg_def split: option.splits)
  with r obtain st1 where 1: "(if logon_complete conn0 then conn_remove_from st c else Inr st) = Inr st1"
    by (auto simp: process_logon_msg_def bnd_Inr_iff)
  have ok1: "index_complete st1"
    using 1 ok conn_remove_from_complete[OF ok, of c st1] by (auto split: if_splits)
  from r c0 1 obtain conn1 where c1: "conns st1 c = Some conn1"
    by (auto simp: process_logon_msg_def split: option.splits)
  let ?conn2 = "conn1\<lparr>logon_complete := True,
                     conn_to := lacf_strlcpy (cpdlc_msg_get_to m) CALLSIGN_LEN,
                     conn_from := lacf_strlcpy (cpdlc_msg_get_from m) CALLSIGN_LEN\<rparr>"
  let ?st2 = "st1\<lparr>conns := (conns st1)(c \<mapsto> ?conn2)\<rparr>"
  have others: "t \<in> set (conns_by_from st1 (conn_from tc))"
    if "conns ?st2 t = Some tc" "logon_complete tc" "conn_from tc \<noteq> []" "t \<noteq> c" for t tc
    using index_completeD[OF ok1, of t tc] that by simp
  show ?thesis
  proof (cases "conn_from ?conn2 = []")
    case True
    with r c0 1 c1 have e: "send_error_msg cd ?st2 c (Some m) ''LOGON REQUIRES FROM= HEADER'' = Inr st'"
      by (auto simp: process_logon_msg_def Let_def bnd_Inr_iff)
    have "index_complete ?st2"
    proof (rule index_completeI)
      fix t tc assume a: "conns ?st2 t = Some tc" "logon_complete tc" "conn_from tc \<noteq> []"
      with True have "t \<noteq> c" by auto
      from others[OF a this] show "t \<in> set (conns_by_from ?st2 (conn_from tc))" by simp
    qed
    from send_error_msg_complete[OF this e] show ?thesis .
  next
    case False
    with r c0 1 c1 have st': "st' = htbl_set ?st2 (conn_from ?conn2) c"
      by (auto simp: process_logon_msg_def Let_def bnd_Inr_iff)
    show ?thesis
    proof (rule index_completeI)
      fix t tc assume a: "conns st' t = Some tc" "logon_complete tc" "conn_from tc \<noteq> []"
      show "t \<in> set (conns_by_from st' (conn_from tc))"
      proof (cases "t = c")
        case True
        with a have "tc = ?conn2" by (simp add: st' htbl_set_def)
        then show ?thesis using True by (simp add: st' htbl_set_def)
      next
        case ne: False
        from a have "conns ?st2 t = Some tc" by (simp add: st' htbl_set_def)
        from others[OF this a(2,3) ne] show ?thesis by (auto simp: st' htbl_set_def)
      qed
    qed
  qed
qed

lemma index_complete_queue_upd:
  assumes "index_complete st" "conns st' = conns st" "conns_by_from st' = conns_by_from st"
  shows "index_complete st'"
  using assms by (simp add: index_complete_def)

lemma store_msg_complete:
  assumes "index_complete st"
  shows "index_complete (fst (store_msg cd tnow st m to))"
  by (rule index_complete_queue_upd[OF assms]) (simp_all add: store_msg_def Let_def)

lemma dequeue_msg_complete:
  assumes "index_complete st" "dequeue_msg st i = Inr st'"
  shows "index_complete st'"
  using assms(2)
  by (intro index_complete_queue_upd[OF assms(1)])
     (auto simp: dequeue_msg_def Let_def split: if_splits)

lemma queued_loop_complete:
  "index_complete st \<Longrightarrow> queued_loop tnow qs i st = Inr st' \<Longrightarrow> index_complete st'"
proof (induction qs arbitrary: i st)
  case Nil
  then show ?case by simp
next
  case (Cons q rest)
  let ?l = "conns_by_from st (q_to q)"
  consider (send) "?l \<noteq> []" | (old) "?l = []" "tnow - created q > QUEUED_MSG_TIMEOUT"
    | (keep) "?l = []" "\<not> tnow - created q > QUEUED_MSG_TIMEOUT" by blast
  then show ?case
  proof cases
    case send
    with Cons.prems(2) obtain st1 st2 where 1: "send_buf_all st ?l (q_msg q) = Inr st1"
      and 2: "dequeue_msg st1 i = Inr st2" and 3: "queued_loop tnow rest i st2 = Inr st'"
      by (auto simp: bnd_Inr_iff)
    from Cons.IH[OF dequeue_msg_complete[OF send_buf_all_complete[OF Cons.prems(1) 1] 2] 3]
    show ?thesis .
  next
    case old
    with Cons.prems(2) obtain st2 where 2: "dequeue_msg st i = Inr st2"
      and 3: "queued_loop tnow rest i st2 = Inr st'"
      by (auto simp: bnd_Inr_iff)
    from Cons.IH[OF dequeue_msg_complete[OF Cons.prems(1) 2] 3] show ?thesis .
  next
    case keep
    with Cons.prems(2) have "queued_loop tnow rest (Suc i) st = Inr st'" by simp
    from Cons.IH[OF Cons.prems(1) this] show ?thesis .
  qed
qed

lemma conn_process_msg_complete:
  assumes ok: "index_complete st" and r: "conn_process_msg cd tnow st c m = Inr st'"
  shows "index_complete st'"
proof -
  from r obtain conn0 where c0: "conns st c = Some conn0"
    by (auto simp: conn_process_msg_def split: option.splits)
  show ?thesis
  proof (cases "\<not> logon_complete conn0 \<and> \<not> is_logon m")
    case True
    with r c0 have "send_error_msg cd st c (Some m) ''LOGON REQUIRED'' = Inr st'"
      by (simp add: conn_process_msg_def)
    from send_error_msg_complete[OF ok this] show ?thesis .
  next
    case False
    with r c0 obtain st1 b where 1:
      "(if is_logon m then process_logon_msg cd st c m else Inr (st, True)) = Inr (st1, b)"
      by (auto simp: conn_process_msg_def bnd_Inr_iff)
    then have ok1: "index_complete st1"
      using ok process_logon_msg_complete[OF ok, of cd c m st1 b] by (auto split: if_splits)
    show ?thesis
    proof (cases b)
      case False
      with r c0 1 \<open>\<not> (\<not> logon_complete conn0 \<and> \<not> is_logon m)\<close> have "st' = st1"
        by (auto simp: conn_process_msg_def bnd_def)
      with ok1 show ?thesis by simp
    next
      case True
      with r c0 1 \<open>\<not> (\<not> logon_complete conn0 \<and> \<not> is_logon m)\<close>
      obtain conn where c1: "conns st1 c = Some conn"
        by (auto simp: conn_process_msg_def bnd_def split: option.splits)
      let ?to = "if msg_to m \<noteq> [] then lacf_strlcpy (msg_to m) CALLSIGN_LEN
                 else lacf_strlcpy (conn_to conn) CALLSIGN_LEN"
      let ?m1 = "cpdlc_msg_set_from m (conn_from conn)"
      let ?l = "conns_by_from st1 ?to"
      let ?s = "store_msg cd tnow st1 ?m1 ?to"
      have eq: "conn_process_msg cd tnow st c m =
          (if msg_to m = [] \<and> conn_to conn = [] then
             send_error_msg cd st1 c (Some m) ''MESSAGE MISSING TO= HEADER''
           else if conn_from conn = [] then Inl AssertFail
           else if ?l = [] then
             (case ?s of
                (st2, True) \<Rightarrow> Inr st2
              | (st2, False) \<Rightarrow> send_error_msg cd st2 c (Some ?m1) ''TOO MANY QUEUED MESSAGES'')
           else send_buf_all st1 ?l (encode cd ?m1))"
      proof -
        from \<open>\<not> (\<not> logon_complete conn0 \<and> \<not> is_logon m)\<close>
        have nn: "(\<not> logon_complete conn0 \<and> \<not> is_logon m) = False" by simp
        show ?thesis
          unfolding conn_process_msg_def c0 option.case nn if_False 1
          using True c1 by (simp add: bnd_def Let_def)
      qed
      show ?thesis
      proof (cases "msg_to m = [] \<and> conn_to conn = []")
        case True
        with r eq have "send_error_msg cd st1 c (Some m) ''MESSAGE MISSING TO= HEADER'' = Inr st'"
          by simp
        from send_error_msg_complete[OF ok1 this] show ?thesis .
      next
        case noto: False
        with r eq have nf: "conn_from conn \<noteq> []" by auto
        show ?thesis
        proof (cases "?l = []")
          case False
          with r eq noto nf have "send_buf_all st1 ?l (encode cd ?m1) = Inr st'" by simp
          from send_buf_all_complete[OF ok1 this] show ?thesis .
        next
          case True
          obtain st2 b2 where s: "?s = (st2, b2)" by (cases ?s)
          then have st2: "st2 = fst ?s" by simp
          have ok2: "index_complete st2" unfolding st2 by (rule store_msg_complete[OF ok1])
          show ?thesis
          proof (cases b2)
            case True
            with r eq noto nf \<open>?l = []\<close> s have "st' = st2" by simp
            with ok2 show ?thesis by simp
          next
            case False
            with r eq noto nf \<open>?l = []\<close> s
            have "send_error_msg cd st2 c (Some ?m1) ''TOO MANY QUEUED MESSAGES'' = Inr st'"
              by simp
            from send_error_msg_complete[OF ok2 this] show ?thesis .
          qed
        qed
      qed
    qed
  qed
qed

lemma process_msgs_complete:
  "index_complete st \<Longrightarrow> process_msgs cd tnow st c ms = Inr st' \<Longrightarrow> index_complete st'"
proof (induction ms arbitrary: st)
  case Nil
  then show ?case by simp
next
  case (Cons m ms)
  from Cons.prems(2) obtain st1 where 1: "conn_process_msg cd tnow st c m = Inr st1"
    and 2: "process_msgs cd tnow st1 c ms = Inr st'"
    by (auto simp: bnd_Inr_iff)
  from Cons.IH[OF conn_process_msg_complete[OF Cons.prems(1) 1] 2] show ?case .
qed

lemma daemon_step_complete:
  assumes ok: "index_complete st" and r: "daemon_step cd st e = Inr st'"
  shows "index_complete st'"
proof (cases e)
  case (Accept c)
  with r handle_accepts_complete[OF ok, of c] show ?thesis by simp
next
  case (Input tnow c msgs decode_ok)
  with r obtain st1 where 1: "process_msgs cd tnow st c msgs = Inr st1"
    and 2: "st' = st1 \<or> close_conn st1 c = Inr st'"
    by (auto simp: handle_conn_input_def conn_process_input_def bnd_Inr_iff
        split: option.splits if_splits)
  from process_msgs_complete[OF ok 1] 2 close_conn_complete show ?thesis by blast
next
  case (Close c)
  with r close_conn_complete[OF ok] show ?thesis by simp
next
  case (Queue tnow)
  with r queued_loop_complete[OF ok] show ?thesis by (simp add: handle_queued_msgs_def)
qed

lemma daemon_run_complete:
  "index_complete st \<Longrightarrow> daemon_run cd st es = Inr st' \<Longrightarrow> index_complete st'"
proof (induction es arbitrary: st)
  case Nil
  then show ?case by simp
next
  case (Cons e es)
  from Cons.prems(2) obtain st1 where 1: "daemon_step cd st e = Inr st1"
    and 2: "daemon_run cd st1 es = Inr st'"
    by (auto simp: bnd_Inr_iff)
  from Cons.IH[OF daemon_step_complete[OF Cons.prems(1) 1] 2] show ?case .
qed



subsection \<open>The logon step\<close>

lemma strlcpy_empty_iff: "lacf_strlcpy s CALLSIGN_LEN = [] \<longleftrightarrow> s = []"
  by (simp add: lacf_strlcpy_def CALLSIGN_LEN_def)

lemma strlcpy_Nil: "lacf_strlcpy [] n = []"
  by (simp add: lacf_strlcpy_def)

text \<open>The state in which \<open>process_logon_msg\<close> binds the callsigns of the message.\<close>

lemma process_logon_msg_steps:
  assumes c0: "conns st c = Some conn0"
    and pre: "logon_complete conn0 \<longrightarrow> conns_by_from st (conn_from conn0) \<noteq> []"
  obtains st_a conn_a where
    "(if logon_complete conn0 then conn_remove_from st c else Inr st) = Inr st_a"
    "conns st_a c = Some conn_a" "outbuf conn_a = outbuf conn0"
    "same_queue st st_a" "\<And>c'. c' \<noteq> c \<Longrightarrow> conns st_a c' = conns st c'"
proof (cases "logon_complete conn0")
  case False
  with c0 show ?thesis by (intro that[of st conn0]) simp_all
next
  case True
  let ?st_a = "st\<lparr>conns_by_from := (conns_by_from st)
               (conn_from conn0 := remove1 c (conns_by_from st (conn_from conn0))),
             conns := (conns st)(c \<mapsto> conn0\<lparr>logon_complete := False, conn_from := []\<rparr>)\<rparr>"
  from True c0 pre have "conn_remove_from st c = Inr ?st_a"
    by (simp add: conn_remove_from_def)
  with True show ?thesis
    by (intro that[of ?st_a "conn0\<lparr>logon_complete := False, conn_from := []\<rparr>"])
       (simp_all add: same_queue_def)
qed

lemma process_logon_msg_returns:
  assumes c0: "conns st c = Some conn0"
    and pre: "logon_complete conn0 \<longrightarrow> conns_by_from st (conn_from conn0) \<noteq> []"
    and e: "msg_from m = [] \<longrightarrow>
            encode cd (error_msg cd (Some m) ''LOGON REQUIRES FROM= HEADER'') \<noteq> []"
  shows "\<exists>st1. process_logon_msg cd st c m = Inr (st1, msg_from m \<noteq> [])"
proof -
  from process_logon_msg_steps[OF c0 pre] obtain st_a conn_a where
    a: "(if logon_complete conn0 then conn_remove_from st c else Inr st) = Inr st_a"
      "conns st_a c = Some conn_a"
    by blast
  let ?conn2 = "conn_a\<lparr>logon_complete := True,
                     conn_to := lacf_strlcpy (cpdlc_msg_get_to m) CALLSIGN_LEN,
                     conn_from := lacf_strlcpy (cpdlc_msg_get_from m) CALLSIGN_LEN\<rparr>"
  let ?st2 = "st_a\<lparr>conns := (conns st_a)(c \<mapsto> ?conn2)\<rparr>"
  have eq: "process_logon_msg cd st c m =
      (if conn_from ?conn2 = [] then
         bnd (send_error_msg cd ?st2 c (Some m) ''LOGON REQUIRES FROM= HEADER'')
           (\<lambda>st3. Inr (st3, False))
       else Inr (htbl_set ?st2 (conn_from ?conn2) c, True))"
    unfolding process_logon_msg_def c0 option.case a(1) bnd_Inr a(2) Let_def ..
  show ?thesis
  proof (cases "msg_from m = []")
    case True
    have "conns ?st2 c = Some ?conn2" by simp
    from send_error_msg_result[OF this, of cd "Some m" "''LOGON REQUIRES FROM= HEADER''"] e True
    show ?thesis
      by (simp add: eq strlcpy_empty_iff cpdlc_msg_get_from_def)
  next
    case False
    then show ?thesis by (simp add: eq strlcpy_empty_iff cpdlc_msg_get_from_def)
  qed
qed

lemma process_logon_msg_cases:
  assumes c0: "conns st c = Some conn0"
    and r: "process_logon_msg cd st c m = Inr (st1, ok)"
  obtains st_a conn_a where
    "conns st_a c = Some conn_a" "outbuf conn_a = outbuf conn0"
    "same_queue st st_a" "\<And>c'. c' \<noteq> c \<Longrightarrow> conns st_a c' = conns st c'"
    "if msg_from m = [] then
       ok = False \<and>
       send_error_msg cd
         (st_a\<lparr>conns := (conns st_a)(c \<mapsto> conn_a\<lparr>logon_complete := True,
                     conn_to := lacf_strlcpy (msg_to m) CALLSIGN_LEN,
                     conn_from := []\<rparr>)\<rparr>)
         c (Some m) ''LOGON REQUIRES FROM= HEADER'' = Inr st1
     else
       ok = True \<and>
       st1 = htbl_set
         (st_a\<lparr>conns := (conns st_a)(c \<mapsto> conn_a\<lparr>logon_complete := True,
                     conn_to := lacf_strlcpy (msg_to m) CALLSIGN_LEN,
                     conn_from := lacf_strlcpy (msg_from m) CALLSIGN_LEN\<rparr>)\<rparr>)
         (lacf_strlcpy (msg_from m) CALLSIGN_LEN) c"
proof -
  from r c0 obtain st_a where
    a1: "(if logon_complete conn0 then conn_remove_from st c else Inr st) = Inr st_a"
    by (auto simp: process_logon_msg_def bnd_Inr_iff)
  then have pre: "logon_complete conn0 \<longrightarrow> conns_by_from st (conn_from conn0) \<noteq> []"
    using c0 by (auto simp: conn_remove_from_def split: if_splits)
  from process_logon_msg_steps[OF c0 pre] a1 obtain conn_a where
    a: "conns st_a c = Some conn_a" "outbuf conn_a = outbuf conn0"
      "same_queue st st_a" "\<And>c'. c' \<noteq> c \<Longrightarrow> conns st_a c' = conns st c'"
    by (metis sum.inject(2))
  let ?conn2 = "conn_a\<lparr>logon_complete := True,
                     conn_to := lacf_strlcpy (cpdlc_msg_get_to m) CALLSIGN_LEN,
                     conn_from := lacf_strlcpy (cpdlc_msg_get_from m) CALLSIGN_LEN\<rparr>"
  let ?st2 = "st_a\<lparr>conns := (conns st_a)(c \<mapsto> ?conn2)\<rparr>"
  have eq: "process_logon_msg cd st c m =
      (if conn_from ?conn2 = [] then
         bnd (send_error_msg cd ?st2 c (Some m) ''LOGON REQUIRES FROM= HEADER'')
           (\<lambda>st3. Inr (st3, False))
       else Inr (htbl_set ?st2 (conn_from ?conn2) c, True))"
    unfolding process_logon_msg_def c0 option.case a1 bnd_Inr a(1) Let_def ..
  show ?thesis
  proof (rule that[OF a])
    show "if msg_from m = [] then
       ok = False \<and>
       send_error_msg cd
         (st_a\<lparr>conns := (conns st_a)(c \<mapsto> conn_a\<lparr>logon_complete := True,
                     conn_to := lacf_strlcpy (msg_to m) CALLSIGN_LEN,
                     conn_from := []\<rparr>)\<rparr>)
         c (Some m) ''LOGON REQUIRES FROM= HEADER'' = Inr st1
     else
       ok = True \<and>
       st1 = htbl_set
         (st_a\<lparr>conns := (conns st_a)(c \<mapsto> conn_a\<lparr>logon_complete := True,
                     conn_to := lacf_strlcpy (msg_to m) CALLSIGN_LEN,
                     conn_from := lacf_strlcpy (msg_from m) CALLSIGN_LEN\<rparr>)\<rparr>)
         (lacf_strlcpy (msg_from m) CALLSIGN_LEN) c"
      using r unfolding eq
      by (auto simp: strlcpy_empty_iff strlcpy_Nil cpdlc_msg_get_from_def cpdlc_msg_get_to_def
          bnd_Inr_iff split: if_splits)
  qed
qed

lemma process_logon_msg_True:
  assumes c0: "conns st c = Some conn0"
    and r: "process_logon_msg cd st c m = Inr (st1, True)"
  shows "msg_from m \<noteq> [] \<and> same_queue st st1 \<and>
         (\<forall>c'. c' \<noteq> c \<longrightarrow> conns st1 c' = conns st c') \<and>
         (\<exists>conn. conns st1 c = Some conn \<and> logon_complete conn \<and>
            conn_from conn = lacf_strlcpy (msg_from m) CALLSIGN_LEN \<and>
            conn_to conn = lacf_strlcpy (msg_to m) CALLSIGN_LEN \<and>
            outbuf conn = outbuf conn0 \<and>
            hd (conns_by_from st1 (conn_from conn)) = c)"
  using c0 r
proof (cases rule: process_logon_msg_cases)
  case (1 st_a conn_a)
  from 1(5) have f: "msg_from m \<noteq> []" by (auto split: if_splits)
  with 1(5) have st1: "st1 = htbl_set
         (st_a\<lparr>conns := (conns st_a)(c \<mapsto> conn_a\<lparr>logon_complete := True,
                     conn_to := lacf_strlcpy (msg_to m) CALLSIGN_LEN,
                     conn_from := lacf_strlcpy (msg_from m) CALLSIGN_LEN\<rparr>)\<rparr>)
         (lacf_strlcpy (msg_from m) CALLSIGN_LEN) c"
    by simp
  from f 1(1-4) show ?thesis
    by (simp add: st1 htbl_set_def same_queue_def)
qed

lemma process_logon_msg_False:
  assumes c0: "conns st c = Some conn0"
    and r: "process_logon_msg cd st c m = Inr (st1, False)"
  shows "msg_from m = [] \<and> same_queue st st1 \<and>
         (\<forall>c'. c' \<noteq> c \<longrightarrow> conns st1 c' = conns st c') \<and>
         map_option outbuf (conns st1 c) =
           Some (outbuf conn0 @ encode cd (error_msg cd (Some m) ''LOGON REQUIRES FROM= HEADER'')) \<and>
         map_option conn_from (conns st1 c) = Some []"
  using c0 r
proof (cases rule: process_logon_msg_cases)
  case (1 st_a conn_a)
  let ?conn2 = "conn_a\<lparr>logon_complete := True,
                     conn_to := lacf_strlcpy (msg_to m) CALLSIGN_LEN, conn_from := []\<rparr>"
  let ?st2 = "st_a\<lparr>conns := (conns st_a)(c \<mapsto> ?conn2)\<rparr>"
  from 1(5) have f: "msg_from m = []" by (auto split: if_splits)
  with 1(5) have e: "send_error_msg cd ?st2 c (Some m) ''LOGON REQUIRES FROM= HEADER'' = Inr st1"
    by simp
  then have st1: "st1 = ?st2\<lparr>conns := (conns ?st2)(c \<mapsto>
        ?conn2\<lparr>outbuf := outbuf ?conn2 @
           encode cd (error_msg cd (Some m) ''LOGON REQUIRES FROM= HEADER'')\<rparr>)\<rparr>"
    by (auto simp: send_error_msg_def conn_send_msg_def conn_send_buf_def split: if_splits)
  from f 1(1-4) show ?thesis
    by (simp add: st1 same_queue_def)
qed

lemma conn_process_msg_logon_failed:
  assumes "conns st c = Some conn0" "is_logon m" "process_logon_msg cd st c m = Inr (st1, False)"
  shows "conn_process_msg cd tnow st c m = Inr st1"
  using assms by (simp add: conn_process_msg_def)

text \<open>What \<open>conn_process_msg\<close> does after the logon step, if there was one, went well.\<close>

lemma conn_process_msg_at_routing:
  assumes c0: "conns st c = Some conn0"
    and at: "if is_logon m then process_logon_msg cd st c m = Inr (st1, True)
             else st1 = st \<and> logon_complete conn0"
    and c1: "conns st1 c = Some conn" and nf: "conn_from conn \<noteq> []"
    and n: "\<not> (msg_to m = [] \<and> conn_to conn = [])"
  shows "conn_process_msg cd tnow st c m =
      (if conns_by_from st1 (if msg_to m \<noteq> [] then lacf_strlcpy (msg_to m) CALLSIGN_LEN
                             else lacf_strlcpy (conn_to conn) CALLSIGN_LEN) = [] then
         (case store_msg cd tnow st1 (cpdlc_msg_set_from m (conn_from conn))
                 (if msg_to m \<noteq> [] then lacf_strlcpy (msg_to m) CALLSIGN_LEN
                  else lacf_strlcpy (conn_to conn) CALLSIGN_LEN) of
            (st2, True) \<Rightarrow> Inr st2
          | (st2, False) \<Rightarrow>
              send_error_msg cd st2 c (Some (cpdlc_msg_set_from m (conn_from conn)))
                ''TOO MANY QUEUED MESSAGES'')
       else send_buf_all st1
              (conns_by_from st1 (if msg_to m \<noteq> [] then lacf_strlcpy (msg_to m) CALLSIGN_LEN
                                  else lacf_strlcpy (conn_to conn) CALLSIGN_LEN))
              (encode cd (cpdlc_msg_set_from m (conn_from conn))))"
proof -
  from n have nn: "(msg_to m = [] \<and> conn_to conn = []) = False" by simp
  show ?thesis
  proof (cases "is_logon m")
    case True
    with at have "process_logon_msg cd st c m = Inr (st1, True)" by simp
    with True c0 c1 nf show ?thesis
      by (simp add: conn_process_msg_def Let_def nn)
  next
    case False
    with at have "st1 = st" "logon_complete conn0" by simp_all
    with False c0 c1 nf show ?thesis
      by (simp add: conn_process_msg_def Let_def nn)
  qed
qed

lemma conn_process_msg_no_to:
  assumes c0: "conns st c = Some conn0"
    and at: "if is_logon m then process_logon_msg cd st c m = Inr (st1, True)
             else st1 = st \<and> logon_complete conn0"
    and c1: "conns st1 c = Some conn"
    and n: "msg_to m = [] \<and> conn_to conn = []"
  shows "conn_process_msg cd tnow st c m =
         send_error_msg cd st1 c (Some m) ''MESSAGE MISSING TO= HEADER''"
proof (cases "is_logon m")
  case True
  with at have "process_logon_msg cd st c m = Inr (st1, True)" by simp
  with True c0 c1 n show ?thesis
    by (simp add: conn_process_msg_def Let_def)
next
  case False
  with at have "st1 = st" "logon_complete conn0" by simp_all
  with False c0 c1 n show ?thesis
    by (simp add: conn_process_msg_def Let_def)
qed


subsection \<open>Routing a message\<close>

lemma st_two_reached:
  "daemon_run codec0 init_structs
     [Accept 2, Input 0 2 [logon_atc] True, Accept 1, Input 1 1 [logon_b] True] = Inr st_two"
  by (auto simp add: daemon_defs daemon_example_defs logon_atc_def st_two_def msg_defs
      fun_upd_def Let_def fun_eq_iff bnd_def)

lemma st_accepted_reached: "daemon_run codec0 init_structs [Accept 1] = Inr st_accepted"
  by (simp add: st_accepted_def)

lemma st_b_bound_logon:
  "process_logon_msg codec0 st_accepted 1 logon_b = Inr (st_b_bound, True)"
  by (auto simp add: daemon_defs daemon_example_defs st_accepted_def st_b_bound_def msg_defs
      fun_upd_def Let_def fun_eq_iff bnd_def)

text \<open>
  C5. A message \<open>m\<close> comes in on the live connection \<open>c\<close>. If \<open>m\<close> is a logon, the logon
  step runs first; it returns (in a state the daemon reaches, for a connection without
  the flag or with a callsign) and succeeds exactly when \<open>m\<close> has a \<open>FROM\<close>. A logon
  without \<open>FROM\<close> gets the reply \<open>LOGON REQUIRES FROM= HEADER\<close>; it is not routed: no other
  connection and no part of the queue changes. Otherwise the message is routed in the
  state \<open>st1\<close> (after a logon, the state with the connection bound to the callsigns of
  \<open>m\<close>; else the state as it was, the connection being logged on) and the connection's
  callsign is not empty. \<open>to\<close> is the addressee the daemon settles on, \<open>m1\<close> the message
  with the connection's callsign as its sender, \<open>l\<close> the entry of the index for \<open>to\<close>.
  Without an addressee the sender gets \<open>MESSAGE MISSING TO= HEADER\<close> and nothing else
  changes. Otherwise, with \<open>l\<close> non-empty, the text of \<open>m1\<close> is appended to the output
  of each connection of \<open>l\<close>, once per entry; with \<open>l\<close> empty and room in the queue, one
  entry with that text is appended to the queue; with \<open>l\<close> empty and no room, the sender
  gets \<open>TOO MANY QUEUED MESSAGES\<close> and the queue stays as it is. In a state the daemon
  reaches from \<open>init_structs\<close>, the connections of \<open>l\<close> are distinct, live and logged on
  under \<open>to\<close>.
\<close>

theorem message_routing:
  assumes "conns st c = Some conn0"
  shows
    "(is_logon m \<longrightarrow>
      (logon_complete conn0 \<longrightarrow> conns_by_from st (conn_from conn0) \<noteq> []) \<longrightarrow>
      (msg_from m = [] \<longrightarrow>
         encode cd (error_msg cd (Some m) ''LOGON REQUIRES FROM= HEADER'') \<noteq> []) \<longrightarrow>
        (case process_logon_msg cd st c m of
           Inl e \<Rightarrow> False
         | Inr (s, ok) \<Rightarrow> ok = (msg_from m \<noteq> []))) \<and>
     (daemon_run cd init_structs es = Inr st \<longrightarrow> logon_complete conn0 \<longrightarrow>
      conn_from conn0 \<noteq> [] \<longrightarrow> c \<in> set (conns_by_from st (conn_from conn0))) \<and>
     (is_logon m \<longrightarrow> process_logon_msg cd st c m = Inr (st0, False) \<longrightarrow>
        msg_from m = [] \<and> conn_process_msg cd tnow st c m = Inr st0 \<and>
        same_queue st st0 \<and> (\<forall>c'. c' \<noteq> c \<longrightarrow> conns st0 c' = conns st c') \<and>
        map_option outbuf (conns st0 c) =
          Some (outbuf conn0 @
                encode cd (error_msg cd (Some m) ''LOGON REQUIRES FROM= HEADER''))) \<and>
     ((if is_logon m then process_logon_msg cd st c m = Inr (st1, True)
       else st1 = st \<and> logon_complete conn0) \<longrightarrow>
      conns st1 c = Some conn \<longrightarrow> conn_from conn \<noteq> [] \<longrightarrow>
      (let to = (if msg_to m \<noteq> [] then lacf_strlcpy (msg_to m) CALLSIGN_LEN
                 else lacf_strlcpy (conn_to conn) CALLSIGN_LEN);
           m1 = cpdlc_msg_set_from m (conn_from conn);
           l = conns_by_from st1 to
       in
       (is_logon m \<longrightarrow>
          conn_from conn = lacf_strlcpy (msg_from m) CALLSIGN_LEN \<and>
          conn_to conn = lacf_strlcpy (msg_to m) CALLSIGN_LEN \<and>
          outbuf conn = outbuf conn0 \<and> same_queue st st1 \<and>
          (\<forall>c'. c' \<noteq> c \<longrightarrow> conns st1 c' = conns st c')) \<and>
       (daemon_run cd init_structs es = Inr st \<longrightarrow>
          distinct l \<and>
          list_all (\<lambda>t. case conns st1 t of
                        None \<Rightarrow> False
                      | Some tc \<Rightarrow> logon_complete tc \<and> conn_from tc = to) l) \<and>
       (msg_to m = [] \<and> conn_to conn = [] \<longrightarrow>
        encode cd (error_msg cd (Some m) ''MESSAGE MISSING TO= HEADER'') \<noteq> [] \<longrightarrow>
          conn_process_msg cd tnow st c m =
          Inr (st1\<lparr>conns := (conns st1)(c \<mapsto> conn\<lparr>outbuf := outbuf conn @
                 encode cd (error_msg cd (Some m) ''MESSAGE MISSING TO= HEADER'')\<rparr>)\<rparr>)) \<and>
       (\<not> (msg_to m = [] \<and> conn_to conn = []) \<longrightarrow>
          (l \<noteq> [] \<longrightarrow> encode cd m1 \<noteq> [] \<longrightarrow> (\<forall>t \<in> set l. conns st1 t \<noteq> None) \<longrightarrow>
             conn_process_msg cd tnow st c m =
             Inr (st1\<lparr>conns := (\<lambda>c'. map_option
                    (\<lambda>x. x\<lparr>outbuf := outbuf x @
                             concat (replicate (count_list l c') (encode cd m1))\<rparr>)
                    (conns st1 c'))\<rparr>)) \<and>
          (l = [] \<longrightarrow>
           queued_msg_bytes st1 + (sizeof_queued_msg + length (encode cd m1) + 1)
             \<le> queued_msg_max_bytes st1 \<longrightarrow>
             conn_process_msg cd tnow st c m =
             Inr (st1\<lparr>queued_msgs := queued_msgs st1 @
                    [\<lparr>q_from = lacf_strlcpy (conn_from conn) CALLSIGN_LEN, q_to = to,
                      created = tnow, q_msg = encode cd m1\<rparr>],
                    queued_msg_bytes := queued_msg_bytes st1 +
                      (sizeof_queued_msg + length (encode cd m1) + 1)\<rparr>)) \<and>
          (l = [] \<longrightarrow>
           queued_msg_bytes st1 + (sizeof_queued_msg + length (encode cd m1) + 1)
             > queued_msg_max_bytes st1 \<longrightarrow>
           encode cd (error_msg cd (Some m1) ''TOO MANY QUEUED MESSAGES'') \<noteq> [] \<longrightarrow>
             conn_process_msg cd tnow st c m =
             Inr (st1\<lparr>conns := (conns st1)(c \<mapsto> conn\<lparr>outbuf := outbuf conn @
                    encode cd (error_msg cd (Some m1) ''TOO MANY QUEUED MESSAGES'')\<rparr>)\<rparr>)))))"
  unfolding Let_def
proof (intro conjI impI allI)
  assume "is_logon m" and pre: "logon_complete conn0 \<longrightarrow> conns_by_from st (conn_from conn0) \<noteq> []"
    and e: "msg_from m = [] \<longrightarrow>
         encode cd (error_msg cd (Some m) ''LOGON REQUIRES FROM= HEADER'') \<noteq> []"
  from process_logon_msg_returns[OF assms pre e]
  show "case process_logon_msg cd st c m of
           Inl e \<Rightarrow> False
         | Inr (s, ok) \<Rightarrow> ok = (msg_from m \<noteq> [])"
    by auto
next
  assume "daemon_run cd init_structs es = Inr st" "logon_complete conn0" "conn_from conn0 \<noteq> []"
  from index_completeD[OF daemon_run_complete[OF index_complete_init this(1)] assms this(2,3)]
  show "c \<in> set (conns_by_from st (conn_from conn0))" .
next
  assume l: "is_logon m" and r: "process_logon_msg cd st c m = Inr (st0, False)"
  from process_logon_msg_False[OF assms r]
  show "msg_from m = []" "same_queue st st0"
    "map_option outbuf (conns st0 c) =
          Some (outbuf conn0 @
                encode cd (error_msg cd (Some m) ''LOGON REQUIRES FROM= HEADER''))"
    by simp_all
  from conn_process_msg_logon_failed[OF assms l r]
  show "conn_process_msg cd tnow st c m = Inr st0" .
  fix c' assume "c' \<noteq> c"
  with process_logon_msg_False[OF assms r] show "conns st0 c' = conns st c'" by simp
next
  assume at: "if is_logon m then process_logon_msg cd st c m = Inr (st1, True)
       else st1 = st \<and> logon_complete conn0"
    and c1: "conns st1 c = Some conn" and nf: "conn_from conn \<noteq> []"
  let ?to = "if msg_to m \<noteq> [] then lacf_strlcpy (msg_to m) CALLSIGN_LEN
             else lacf_strlcpy (conn_to conn) CALLSIGN_LEN"
  let ?m1 = "cpdlc_msg_set_from m (conn_from conn)"
  let ?l = "conns_by_from st1 ?to"
  {
    assume l: "is_logon m"
    with at have r: "process_logon_msg cd st c m = Inr (st1, True)" by simp
    from process_logon_msg_True[OF assms r] c1
    show "conn_from conn = lacf_strlcpy (msg_from m) CALLSIGN_LEN"
      "conn_to conn = lacf_strlcpy (msg_to m) CALLSIGN_LEN"
      "outbuf conn = outbuf conn0" "same_queue st st1"
      by auto
    fix c' assume "c' \<noteq> c"
    with process_logon_msg_True[OF assms r] show "conns st1 c' = conns st c'" by simp
  }
  {
    assume "daemon_run cd init_structs es = Inr st"
    from daemon_run_index[OF index_ok_init this] have ok: "index_ok st" .
    have ok1: "index_ok st1"
    proof (cases "is_logon m")
      case True
      with at have "process_logon_msg cd st c m = Inr (st1, True)" by simp
      from process_logon_msg_index[OF ok this] show ?thesis .
    next
      case False
      with at ok show ?thesis by simp
    qed
    from index_ok_distinct[OF ok1] show "distinct ?l" .
    from index_okD(2)[OF ok1]
    show "list_all (\<lambda>t. case conns st1 t of
                        None \<Rightarrow> False
                      | Some tc \<Rightarrow> logon_complete tc \<and> conn_from tc = ?to) ?l"
      by (fastforce simp: list_all_iff)
  }
  {
    assume n: "msg_to m = [] \<and> conn_to conn = []"
      and e: "encode cd (error_msg cd (Some m) ''MESSAGE MISSING TO= HEADER'') \<noteq> []"
    from conn_process_msg_no_to[OF assms at c1 n] send_error_msg_result[OF c1 e]
    show "conn_process_msg cd tnow st c m =
          Inr (st1\<lparr>conns := (conns st1)(c \<mapsto> conn\<lparr>outbuf := outbuf conn @
                 encode cd (error_msg cd (Some m) ''MESSAGE MISSING TO= HEADER'')\<rparr>)\<rparr>)"
      by simp
  }
  assume n: "\<not> (msg_to m = [] \<and> conn_to conn = [])"
  have step: "conn_process_msg cd tnow st c m =
      (if ?l = [] then
         (case store_msg cd tnow st1 ?m1 ?to of
            (st2, True) \<Rightarrow> Inr st2
          | (st2, False) \<Rightarrow> send_error_msg cd st2 c (Some ?m1) ''TOO MANY QUEUED MESSAGES'')
       else send_buf_all st1 ?l (encode cd ?m1))"
    by (rule conn_process_msg_at_routing[OF assms at c1 nf n])
  have tt: "lacf_strlcpy ?to CALLSIGN_LEN = ?to"
    by (simp add: strlcpy_twice)
  {
    assume a: "?l \<noteq> []" "encode cd ?m1 \<noteq> []" "\<forall>t \<in> set ?l. conns st1 t \<noteq> None"
    from a(1) send_buf_all_result[OF a(2) a(3)] show "conn_process_msg cd tnow st c m =
             Inr (st1\<lparr>conns := (\<lambda>c'. map_option
                    (\<lambda>x. x\<lparr>outbuf := outbuf x @
                             concat (replicate (count_list ?l c') (encode cd ?m1))\<rparr>)
                    (conns st1 c'))\<rparr>)"
      by (simp only: step if_False)
  }
  {
    assume le: "?l = []"
      "queued_msg_bytes st1 + (sizeof_queued_msg + length (encode cd ?m1) + 1)
         \<le> queued_msg_max_bytes st1"
    have "store_msg cd tnow st1 ?m1 ?to =
          (st1\<lparr>queued_msgs := queued_msgs st1 @
                    [\<lparr>q_from = lacf_strlcpy (conn_from conn) CALLSIGN_LEN, q_to = ?to,
                      created = tnow, q_msg = encode cd ?m1\<rparr>],
                    queued_msg_bytes := queued_msg_bytes st1 +
                      (sizeof_queued_msg + length (encode cd ?m1) + 1)\<rparr>, True)"
      using le(2) unfolding store_msg_def Let_def tt
      by (simp add: cpdlc_msg_get_from_def cpdlc_msg_set_from_def)
    then show "conn_process_msg cd tnow st c m =
             Inr (st1\<lparr>queued_msgs := queued_msgs st1 @
                    [\<lparr>q_from = lacf_strlcpy (conn_from conn) CALLSIGN_LEN, q_to = ?to,
                      created = tnow, q_msg = encode cd ?m1\<rparr>],
                    queued_msg_bytes := queued_msg_bytes st1 +
                      (sizeof_queued_msg + length (encode cd ?m1) + 1)\<rparr>)"
      using le(1) by (simp add: step)
  }
  {
    assume le: "?l = []"
      "queued_msg_bytes st1 + (sizeof_queued_msg + length (encode cd ?m1) + 1)
         > queued_msg_max_bytes st1"
      and e: "encode cd (error_msg cd (Some ?m1) ''TOO MANY QUEUED MESSAGES'') \<noteq> []"
    have "store_msg cd tnow st1 ?m1 ?to = (st1, False)"
      using le(2) unfolding store_msg_def Let_def by simp
    then show "conn_process_msg cd tnow st c m =
             Inr (st1\<lparr>conns := (conns st1)(c \<mapsto> conn\<lparr>outbuf := outbuf conn @
                    encode cd (error_msg cd (Some ?m1) ''TOO MANY QUEUED MESSAGES'')\<rparr>)\<rparr>)"
      using le(1) send_error_msg_result[OF c1 e]
      by (simp add: step)
  }
qed

theorem message_routing_witness:
  "conn_process_msg codec0 5 st_two 2 plain_msg =
     Inr (st_two\<lparr>conns := (conns st_two)(2 \<mapsto>
       \<lparr>conn_from = ''ATC1'', conn_to = [], logon_complete = True,
         outbuf = ''FROM= TO= MSG=MESSAGE MISSING TO= HEADERFROM=B TO=ATC1 MSG='' @
                  ''FROM= TO= MSG=MESSAGE MISSING TO= HEADER''\<rparr>)\<rparr>) \<and>
   (case conn_process_msg codec0 5 st_two 1 plain_msg of
      Inl e \<Rightarrow> False
    | Inr st' \<Rightarrow>
        map_option outbuf (conns st' 2) =
          Some (''FROM= TO= MSG=MESSAGE MISSING TO= HEADERFROM=B TO=ATC1 MSG='' @
                ''FROM=B TO= MSG='') \<and>
        map_option outbuf (conns st' 1) = Some [] \<and> queued_msgs st' = []) \<and>
   conn_process_msg codec0 5 st_b_logged_on 1 plain_msg =
     Inr (st_b_logged_on\<lparr>queued_msgs := queued_msgs st_b_logged_on @
            [\<lparr>q_from = ''B'', q_to = ''ATC1'', created = 5, q_msg = ''FROM=B TO= MSG=''\<rparr>],
          queued_msg_bytes := 84 + 80\<rparr>) \<and>
   conn_process_msg codec0 5 st_full 1 plain_msg =
     Inr (st_full\<lparr>conns := (conns st_full)(1 \<mapsto>
       \<lparr>conn_from = ''B'', conn_to = ''ATC1'', logon_complete = True,
         outbuf = ''FROM= TO= MSG=TOO MANY QUEUED MESSAGES''\<rparr>)\<rparr>) \<and>
   process_logon_msg codec0 st_accepted 1 logon_b = Inr (st_b_bound, True) \<and>
   conn_process_msg codec0 0 st_accepted 1 logon_b = Inr st_b_logged_on \<and>
   (case conn_process_msg codec0 5 st_b_logged_on 1 logon_nobody of
      Inl e \<Rightarrow> False
    | Inr st' \<Rightarrow>
        same_queue st_b_logged_on st' \<and>
        map_option outbuf (conns st' 1) = Some ''FROM= TO= MSG=LOGON REQUIRES FROM= HEADER'')"
proof -
  let ?b = "\<lparr>conn_from = ''B'', conn_to = ''ATC1'', logon_complete = True, outbuf = []\<rparr>"
  let ?a = "\<lparr>conn_from = ''ATC1'', conn_to = [], logon_complete = True,
             outbuf = ''FROM= TO= MSG=MESSAGE MISSING TO= HEADERFROM=B TO=ATC1 MSG=''\<rparr>"
  let ?n = "\<lparr>conn_from = [], conn_to = [], logon_complete = False, outbuf = []\<rparr>"
  let ?es = "[Accept 2, Input 0 2 [logon_atc] True, Accept 1, Input 1 1 [logon_b] True]"
  have c: "conns st_two 2 = Some ?a" "conns st_two 1 = Some ?b"
    "conns st_b_logged_on 1 = Some ?b" "conns st_full 1 = Some ?b"
    "conns st_accepted 1 = Some ?n" "conns st_b_bound 1 = Some ?b"
    by (simp_all add: st_two_def st_b_logged_on_def st_full_def st_accepted_def st_b_bound_def
        handle_accepts_def init_structs_def)
  have m: "\<not> is_logon plain_msg" "msg_to plain_msg = []" "is_logon logon_b"
    "msg_to logon_b = ''ATC1''" "msg_from logon_b = ''B''"
    "is_logon logon_nobody" "msg_from logon_nobody = []"
    by (simp_all add: daemon_example_defs msg_defs)
  have e: "encode codec0 (error_msg codec0 (Some plain_msg) ''MESSAGE MISSING TO= HEADER'') =
             ''FROM= TO= MSG=MESSAGE MISSING TO= HEADER''"
    "encode codec0 (cpdlc_msg_set_from plain_msg ''B'') = ''FROM=B TO= MSG=''"
    "encode codec0 (error_msg codec0 (Some (cpdlc_msg_set_from plain_msg ''B''))
       ''TOO MANY QUEUED MESSAGES'') = ''FROM= TO= MSG=TOO MANY QUEUED MESSAGES''"
    "encode codec0 (cpdlc_msg_set_from logon_b ''B'') = ''FROM=B TO=ATC1 MSG=''"
    "encode codec0 (error_msg codec0 (Some logon_nobody) ''LOGON REQUIRES FROM= HEADER'') =
       ''FROM= TO= MSG=LOGON REQUIRES FROM= HEADER''"
    by (simp_all add: daemon_defs daemon_example_defs msg_defs)
  have i: "conns_by_from st_two ''ATC1'' = [2]" "conns_by_from st_b_logged_on ''ATC1'' = []"
    "conns_by_from st_full ''ATC1'' = []" "conns_by_from st_b_bound ''ATC1'' = []"
    "conns_by_from st_b_logged_on ''B'' = [1]"
    by (simp_all add: st_two_def st_b_logged_on_def st_full_def st_b_bound_def)
  note r = message_routing[where cd = codec0 and tnow = 5 and m = plain_msg]
  from r[OF c(1), where ?st1.0 = st_two and conn = ?a and es = ?es]
    r[OF c(2), where ?st1.0 = st_two and conn = ?b and es = ?es]
    r[OF c(3), where ?st1.0 = st_b_logged_on and conn = ?b and es = "[]"]
    r[OF c(4), where ?st1.0 = st_full and conn = ?b and es = "[]"]
    c m e i st_two_reached
  have 1: "conn_process_msg codec0 5 st_two 2 plain_msg =
     Inr (st_two\<lparr>conns := (conns st_two)(2 \<mapsto>
       \<lparr>conn_from = ''ATC1'', conn_to = [], logon_complete = True,
         outbuf = ''FROM= TO= MSG=MESSAGE MISSING TO= HEADERFROM=B TO=ATC1 MSG='' @
                  ''FROM= TO= MSG=MESSAGE MISSING TO= HEADER''\<rparr>)\<rparr>)"
    "case conn_process_msg codec0 5 st_two 1 plain_msg of
      Inl e \<Rightarrow> False
    | Inr st' \<Rightarrow>
        map_option outbuf (conns st' 2) =
          Some (''FROM= TO= MSG=MESSAGE MISSING TO= HEADERFROM=B TO=ATC1 MSG='' @
                ''FROM=B TO= MSG='') \<and>
        map_option outbuf (conns st' 1) = Some [] \<and> queued_msgs st' = []"
    "conn_process_msg codec0 5 st_b_logged_on 1 plain_msg =
     Inr (st_b_logged_on\<lparr>queued_msgs := queued_msgs st_b_logged_on @
            [\<lparr>q_from = ''B'', q_to = ''ATC1'', created = 5, q_msg = ''FROM=B TO= MSG=''\<rparr>],
          queued_msg_bytes := 84 + 80\<rparr>)"
    "conn_process_msg codec0 5 st_full 1 plain_msg =
     Inr (st_full\<lparr>conns := (conns st_full)(1 \<mapsto>
       \<lparr>conn_from = ''B'', conn_to = ''ATC1'', logon_complete = True,
         outbuf = ''FROM= TO= MSG=TOO MANY QUEUED MESSAGES''\<rparr>)\<rparr>)"
    by (simp_all add: Let_def lacf_strlcpy_def CALLSIGN_LEN_def sizeof_queued_msg_def st_two_def
        st_b_logged_on_def st_full_def)
  from message_routing[OF c(5), where cd = codec0 and tnow = 0 and m = logon_b
      and ?st1.0 = st_b_bound and conn = ?b and es = "[Accept 1]"]
    st_b_bound_logon c(6) m e i
  have 2: "conn_process_msg codec0 0 st_accepted 1 logon_b = Inr st_b_logged_on"
    by (simp add: Let_def lacf_strlcpy_def CALLSIGN_LEN_def sizeof_queued_msg_def
        st_b_bound_def st_b_logged_on_def)
  note f = message_routing[OF c(3), where cd = codec0 and tnow = 5 and m = logon_nobody]
  from f[THEN conjunct1] m e i
  have "case process_logon_msg codec0 st_b_logged_on 1 logon_nobody of
          Inl e \<Rightarrow> False
        | Inr (s, ok) \<Rightarrow> ok = (msg_from logon_nobody \<noteq> [])"
    by simp
  then obtain st0 where 3:
    "process_logon_msg codec0 st_b_logged_on 1 logon_nobody = Inr (st0, False)"
    by (auto simp: m split: sum.splits)
  from f[THEN conjunct2, THEN conjunct2, THEN conjunct1, rule_format, OF m(6) 3] e
  have 4: "case conn_process_msg codec0 5 st_b_logged_on 1 logon_nobody of
      Inl e \<Rightarrow> False
    | Inr st' \<Rightarrow>
        same_queue st_b_logged_on st' \<and>
        map_option outbuf (conns st' 1) = Some ''FROM= TO= MSG=LOGON REQUIRES FROM= HEADER''"
    by simp
  from 1 2 4 st_b_bound_logon show ?thesis by blast
qed

text \<open>
  C5 as stated fails for a logon message whose logon fails. Station \<open>B\<close> is logged on
  over connection 1 and nobody is logged on as \<open>ATC1\<close>. The connection sends a logon
  without \<open>FROM\<close>, addressed to \<open>ATC1\<close>: it gets the reply
  \<open>LOGON REQUIRES FROM= HEADER\<close>, and the message is neither given the callsign \<open>B\<close> nor
  queued, although the queue has room.
\<close>

theorem logon_not_routed_counterexample:
  "map_option logon_complete (conns st_b_logged_on 1) = Some True \<and>
   map_option conn_from (conns st_b_logged_on 1) = Some ''B'' \<and>
   msg_to logon_nobody = ''ATC1'' \<and>
   conns_by_from st_b_logged_on ''ATC1'' = [] \<and>
   queued_msg_bytes st_b_logged_on + 200 < queued_msg_max_bytes st_b_logged_on \<and>
   (case conn_process_msg codec0 5 st_b_logged_on 1 logon_nobody of
      Inl e \<Rightarrow> False
    | Inr st' \<Rightarrow>
        queued_msgs st' = queued_msgs st_b_logged_on \<and>
        length (queued_msgs st') = 1 \<and>
        map_option outbuf (conns st' 1) =
          Some ''FROM= TO= MSG=LOGON REQUIRES FROM= HEADER'')"
  by (simp add: daemon_defs daemon_example_defs msg_defs Let_def bnd_def)

end
